theory Spec2Isabelle
  imports Complex_Main
begin

section \<open>simplypipe: a lazy pull-based pipeline\<close>

text \<open>
  The embedding follows \<^verbatim>\<open>simplypipe/core/pipe.py\<close> and \<^verbatim>\<open>simplypipe/stats/model.py\<close>.

  \<^item> Python values that flow through a pipeline are the type \<open>item\<close>: integers (booleans
    are the integers 0 and 1), strings, lists (what \<^verbatim>\<open>batch\<close> yields) and \<^verbatim>\<open>None\<close>.
  \<^item> A caller-supplied callable may read and change the program state and may raise, so it
    is a function from its argument and the state (the type variable \<open>'w\<close>) to a result or
    an exception, and the new state.
  \<^item> An operator closure of \<^verbatim>\<open>Pipe._ops\<close> is a value of \<open>op\<close>; the generator object
    made by calling it is a value of \<open>gen\<close>: the closure's parameters, the generator's
    local variables, and whether it has finished.
  \<^item> \<^verbatim>\<open>next()\<close> on the composed generator is \<open>pull\<close>. A \<^verbatim>\<open>for\<close> loop over an
    unbounded source need not end, so \<open>pull\<close> and the consuming loop of \<^verbatim>\<open>run\<close> take
    fuel and return \<open>None\<close> when it runs out.
  \<^item> The source is a plain sequence of items: iterating it raises nothing and does not
    touch the program state, and every run iterates it from its first position.
  \<^item> What \<^verbatim>\<open>fn\<close> returns to \<^verbatim>\<open>flat_map\<close> is a value (a list or a string), not a lazy
    iterator with effects of its own.
  \<^item> An exception that leaves the body of a generator as \<^verbatim>\<open>StopIteration\<close> reaches the
    caller of \<^verbatim>\<open>next()\<close> as \<^verbatim>\<open>RuntimeError\<close> (PEP 479): \<open>leave\<close>.
  \<^item> A generator object is finalised when the last reference to it goes, as CPython's
    reference counting does it: when the loop of \<^verbatim>\<open>take\<close> ends by \<^verbatim>\<open>break\<close> its frame lets
    go of the generator below, which is closed while suspended at a \<^verbatim>\<open>yield\<close>, so
    \<^verbatim>\<open>GeneratorExit\<close> is raised there: \<open>on_close\<close> and \<open>close\<close>. The \<^verbatim>\<open>yield\<close> of
    \<^verbatim>\<open>retry_map\<close> and of \<^verbatim>\<open>catch\<close> stands inside the \<^verbatim>\<open>try\<close>, so their \<^verbatim>\<open>except\<close> clause
    sees it. A frame that an exception object still refers to through its traceback keeps
    its variables: \<^verbatim>\<open>last_exc\<close> of \<^verbatim>\<open>retry_map\<close> holds such an object, and so does the
    exception on its way out of \<^verbatim>\<open>run\<close>. The cyclic garbage collector is taken not to run
    during \<^verbatim>\<open>run\<close>, the callables keep no reference to the exception objects they are
    given, and what is finalised after \<^verbatim>\<open>run\<close> has been left is outside the model.
  \<^item> Wall-clock time is outside the model: \<^verbatim>\<open>time.sleep\<close> and
    \<^verbatim>\<open>time.perf_counter\<close> have no effect on items or counters, and the field
    \<^verbatim>\<open>duration\<close> of \<^verbatim>\<open>RunStats\<close> is left out.
\<close>

subsection \<open>Values, exceptions, callables\<close>

datatype item = IntV int | StrV string | ListV "item list" | NoneV

datatype exn = ValueError | TypeError | RuntimeError | ZeroDivisionError | KeyError | StopIteration
  | GeneratorExit | OtherError nat

type_synonym 'w callable = "item \<Rightarrow> 'w \<Rightarrow> (exn + item) \<times> 'w"

type_synonym 'w handler = "item \<Rightarrow> exn \<Rightarrow> 'w \<Rightarrow> (exn + item) \<times> 'w"


text \<open>Truth value of an object, as \<^verbatim>\<open>if fn(item):\<close> tests it.\<close>

fun truthy :: "item \<Rightarrow> bool" where
  "truthy (IntV n) = (n \<noteq> 0)"
| "truthy (StrV s) = (s \<noteq> [])"
| "truthy (ListV xs) = (xs \<noteq> [])"
| "truthy NoneV = False"

text \<open>Iterating an object, as \<^verbatim>\<open>yield from fn(item)\<close> does: a list gives its elements, a
  string its characters, anything else raises \<^verbatim>\<open>TypeError\<close>.\<close>

fun iterate :: "item \<Rightarrow> exn + item list" where
  "iterate (ListV xs) = Inr xs"
| "iterate (StrV s) = Inr (map (\<lambda>ch. StrV [ch]) s)"
| "iterate (IntV n) = Inl TypeError"
| "iterate NoneV = Inl TypeError"

text \<open>A list cannot be a dictionary key: \<^verbatim>\<open>key_value not in seen\<close> raises
  \<^verbatim>\<open>TypeError\<close> for it.\<close>

fun hashable :: "item \<Rightarrow> bool" where
  "hashable (ListV xs) = False"
| "hashable v = True"

subsection \<open>RunStats\<close>

record run_stats =
  processed :: int
  emitted :: int
  dropped :: int
  batches :: int
  errors :: int

definition RunStats :: run_stats where
  "RunStats = \<lparr>processed = 0, emitted = 0, dropped = 0, batches = 0, errors = 0\<rparr>"

text \<open>What one execution of \<^verbatim>\<open>run\<close> mutates: its statistics record, the position of the
  iterator over the source, and the program state the callables act on.\<close>

record 'w ctx =
  stats :: run_stats
  pos :: nat
  world :: 'w

definition call :: "'w callable \<Rightarrow> item \<Rightarrow> 'w ctx \<Rightarrow> (exn + item) \<times> 'w ctx" where
  "call fn x c = (case fn x (world c) of (r, w) \<Rightarrow> (r, c\<lparr>world := w\<rparr>))"

definition call2 :: "'w handler \<Rightarrow> item \<Rightarrow> exn \<Rightarrow> 'w ctx \<Rightarrow> (exn + item) \<times> 'w ctx" where
  "call2 fn x e c = (case fn x e (world c) of (r, w) \<Rightarrow> (r, c\<lparr>world := w\<rparr>))"

definition add_dropped :: "'w ctx \<Rightarrow> 'w ctx" where
  "add_dropped c = c\<lparr>stats := (stats c)\<lparr>dropped := dropped (stats c) + 1\<rparr>\<rparr>"

definition add_batches :: "'w ctx \<Rightarrow> 'w ctx" where
  "add_batches c = c\<lparr>stats := (stats c)\<lparr>batches := batches (stats c) + 1\<rparr>\<rparr>"

definition add_errors :: "'w ctx \<Rightarrow> 'w ctx" where
  "add_errors c = c\<lparr>stats := (stats c)\<lparr>errors := errors (stats c) + 1\<rparr>\<rparr>"

definition add_processed :: "'w ctx \<Rightarrow> 'w ctx" where
  "add_processed c = c\<lparr>stats := (stats c)\<lparr>processed := processed (stats c) + 1\<rparr>\<rparr>"

definition add_emitted :: "'w ctx \<Rightarrow> 'w ctx" where
  "add_emitted c = c\<lparr>stats := (stats c)\<lparr>emitted := emitted (stats c) + 1\<rparr>\<rparr>"

subsection \<open>Operators and their generators\<close>

text \<open>The closures the builder methods make, with the parameters each captures.
  \<open>Rate_limit\<close> holds \<^verbatim>\<open>min_interval\<close>; the \<^verbatim>\<open>exceptions\<close> tuple of \<^verbatim>\<open>retry_map\<close> and
  \<^verbatim>\<open>catch\<close> is the predicate telling which exceptions an \<^verbatim>\<open>except\<close> clause matches.\<close>

datatype 'w op =
    Map_op "'w callable"
  | Flat_map "'w callable"
  | Filter_op "'w callable"
  | Tap "'w callable"
  | Batch int
  | Rate_limit real
  | Dedupe "'w callable option" "int option"
  | Retry_map "'w callable" int real "exn \<Rightarrow> bool"
  | Take_op int
  | Catch "'w callable" "'w handler" "exn \<Rightarrow> bool"

text \<open>A generator object: the operator's parameters and its local variables
  (\<open>G_flat_map\<close>: what is left of the iterable being yielded from; \<open>G_batch\<close>:
  \<^verbatim>\<open>buffer\<close>; \<open>G_dedupe\<close>: the keys of \<^verbatim>\<open>seen\<close>, oldest first; \<open>G_take\<close>:
  \<^verbatim>\<open>count\<close>). For \<^verbatim>\<open>retry_map\<close> and \<^verbatim>\<open>catch\<close>, whose \<^verbatim>\<open>yield\<close> stands inside a
  \<^verbatim>\<open>try\<close>, the last field tells whether the generator is suspended at that \<^verbatim>\<open>yield\<close>,
  and with which variables: \<^verbatim>\<open>item\<close>, and for \<^verbatim>\<open>retry_map\<close> the number of attempts
  the inner loop has left and \<^verbatim>\<open>last_exc\<close>.

  \<open>Finished\<close> is a generator that has ended and lets go of nothing any more (its frame
  is cleared, or is held for good): every later \<^verbatim>\<open>next()\<close> on it raises
  \<^verbatim>\<open>StopIteration\<close>, and closing it does nothing.
  \<open>Failed\<close> is a generator that an exception has left: it has ended as well, but its
  frame, kept by the traceback of that exception, still refers to the generator below.\<close>

datatype 'w gen =
    G_map "'w callable"
  | G_flat_map "'w callable" "item list"
  | G_filter "'w callable"
  | G_tap "'w callable"
  | G_batch int "item list"
  | G_rate_limit real
  | G_dedupe "'w callable option" "int option" "item list"
  | G_retry_map "'w callable" int real "exn \<Rightarrow> bool" "(item \<times> nat \<times> exn option) option"
  | G_take int int
  | G_catch "'w callable" "'w handler" "exn \<Rightarrow> bool" "item option"
  | Finished
  | Failed

text \<open>Calling the closure makes the generator; no code of its body runs yet.\<close>

fun start :: "'w op \<Rightarrow> 'w gen" where
  "start (Map_op fn) = G_map fn"
| "start (Flat_map fn) = G_flat_map fn []"
| "start (Filter_op fn) = G_filter fn"
| "start (Tap fn) = G_tap fn"
| "start (Batch sz) = G_batch sz []"
| "start (Rate_limit min_interval) = G_rate_limit min_interval"
| "start (Dedupe key max_size) = G_dedupe key max_size []"
| "start (Retry_map fn retries backoff exceptions) = G_retry_map fn retries backoff exceptions None"
| "start (Take_op n) = G_take n 0"
| "start (Catch fn on_error exceptions) = G_catch fn on_error exceptions None"

text \<open>What \<^verbatim>\<open>next()\<close> gives.\<close>

datatype signal = Yield item | Stop | Raise exn

text \<open>What the body of a generator's \<^verbatim>\<open>for item in iterable\<close> loop does with one item:
  it yields and suspends (\<open>Out\<close>), it leaves the generator by \<^verbatim>\<open>break\<close> or by an
  exception (\<open>Halt\<close>, with what is left of the generator: \<open>Finished\<close> or \<open>Failed\<close>), or it
  goes on to the next iteration (\<open>Loop\<close>).\<close>

text \<open>A generator suspended at a \<^verbatim>\<open>yield\<close> is recorded with the values its variables
  have when it next reaches the head of its loop (\<^verbatim>\<open>batch\<close> with the new empty buffer,
  \<^verbatim>\<open>take\<close> with \<^verbatim>\<open>count\<close> increased): the statements between the \<^verbatim>\<open>yield\<close> and the
  loop head change the generator's own variables only.\<close>

datatype 'w step =
    Out item "'w gen" "'w ctx"
  | Halt signal "'w gen" "'w ctx"
  | Loop "'w gen" "'w ctx"

text \<open>The inner loop of \<^verbatim>\<open>retry_map\<close>, \<^verbatim>\<open>for attempt in range(retries + 1)\<close>, with the
  number of attempts left and \<^verbatim>\<open>last_exc\<close>. With no attempt left the \<^verbatim>\<open>else\<close> branch
  raises \<^verbatim>\<open>last_exc\<close>; raising \<^verbatim>\<open>None\<close> is a \<^verbatim>\<open>TypeError\<close>. The loop is left at the
  \<^verbatim>\<open>yield\<close>, with the value, the attempts still left and \<^verbatim>\<open>last_exc\<close>, or by an
  exception, with \<^verbatim>\<open>last_exc\<close>.\<close>

fun attempts :: "'w callable \<Rightarrow> (exn \<Rightarrow> bool) \<Rightarrow> item \<Rightarrow> nat \<Rightarrow> exn option \<Rightarrow> 'w ctx
    \<Rightarrow> (exn + item \<times> nat) \<times> exn option \<times> 'w ctx" where
  "attempts fn exceptions x 0 last_exc c =
     (case last_exc of None \<Rightarrow> (Inl TypeError, None, c) | Some e \<Rightarrow> (Inl e, Some e, c))"
| "attempts fn exceptions x (Suc k) last_exc c =
     (case call fn x c of
        (Inr y, c1) \<Rightarrow> (Inr (y, k), last_exc, c1)
      | (Inl e, c1) \<Rightarrow>
          if exceptions e then attempts fn exceptions x k (Some e) (add_errors c1)
          else (Inl e, last_exc, c1))"

text \<open>An exception leaves a generator as \<open>Failed\<close>. When \<^verbatim>\<open>retry_map\<close> is left with
  \<^verbatim>\<open>last_exc\<close> set, that exception object and the frame refer to each other, so the frame
  never lets go of the generator below: \<open>Finished\<close>.\<close>

fun on_item :: "'w gen \<Rightarrow> item \<Rightarrow> 'w ctx \<Rightarrow> 'w step" where
  "on_item (G_map fn) x c =
     (case call fn x c of
        (Inl e, c1) \<Rightarrow> Halt (Raise e) Failed c1
      | (Inr y, c1) \<Rightarrow> Out y (G_map fn) c1)"
| "on_item (G_flat_map fn rest) x c =
     (case call fn x c of
        (Inl e, c1) \<Rightarrow> Halt (Raise e) Failed c1
      | (Inr v, c1) \<Rightarrow>
          (case iterate v of
             Inl e \<Rightarrow> Halt (Raise e) Failed c1
           | Inr [] \<Rightarrow> Loop (G_flat_map fn []) c1
           | Inr (y # ys) \<Rightarrow> Out y (G_flat_map fn ys) c1))"
| "on_item (G_filter fn) x c =
     (case call fn x c of
        (Inl e, c1) \<Rightarrow> Halt (Raise e) Failed c1
      | (Inr v, c1) \<Rightarrow>
          if truthy v then Out x (G_filter fn) c1
          else Loop (G_filter fn) (add_dropped c1))"
| "on_item (G_tap fn) x c =
     (case call fn x c of
        (Inl e, c1) \<Rightarrow> Halt (Raise e) Failed c1
      | (Inr v, c1) \<Rightarrow> Out x (G_tap fn) c1)"
| "on_item (G_batch sz buffer) x c =
     (let buffer1 = buffer @ [x] in
      if int (length buffer1) = sz
      then Out (ListV buffer1) (G_batch sz []) (add_batches c)
      else Loop (G_batch sz buffer1) c)"
| "on_item (G_rate_limit min_interval) x c = Out x (G_rate_limit min_interval) c"
| "on_item (G_dedupe key max_size seen) x c =
     (case (case key of None \<Rightarrow> (Inr x, c) | Some k \<Rightarrow> call k x c) of
        (Inl e, c1) \<Rightarrow> Halt (Raise e) Failed c1
      | (Inr key_value, c1) \<Rightarrow>
          if \<not> hashable key_value then Halt (Raise TypeError) Failed c1
          else if key_value \<notin> set seen then
            (let seen1 = seen @ [key_value];
                 seen2 = (case max_size of
                            None \<Rightarrow> seen1
                          | Some m \<Rightarrow> if int (length seen1) > m then tl seen1 else seen1)
             in Out x (G_dedupe key max_size seen2) c1)
          else Loop (G_dedupe key max_size seen) (add_dropped c1))"
| "on_item (G_retry_map fn retries backoff exceptions at_yield) x c =
     (case attempts fn exceptions x (nat (retries + 1)) None c of
        (Inl e, last_exc, c1) \<Rightarrow> Halt (Raise e) (if last_exc = None then Failed else Finished) c1
      | (Inr (y, left), last_exc, c1) \<Rightarrow>
          Out y (G_retry_map fn retries backoff exceptions (Some (x, left, last_exc))) c1)"
| "on_item (G_take n count) x c =
     (if count \<ge> n then Halt Stop Finished c
      else Out x (G_take n (count + 1)) c)"
| "on_item (G_catch fn on_error exceptions at_yield) x c =
     (case call fn x c of
        (Inr y, c1) \<Rightarrow> Out y (G_catch fn on_error exceptions (Some x)) c1
      | (Inl e, c1) \<Rightarrow>
          if exceptions e then
            (case call2 on_error x e c1 of
               (Inl e2, c2) \<Rightarrow> Halt (Raise e2) Failed c2
             | (Inr v, c2) \<Rightarrow> Loop (G_catch fn on_error exceptions None) (add_errors c2))
          else Halt (Raise e) Failed c1)"
| "on_item Finished x c = Halt Stop Finished c"
| "on_item Failed x c = Halt Stop Failed c"

text \<open>The code after the \<^verbatim>\<open>for\<close> loop, run when the input is exhausted: \<^verbatim>\<open>batch\<close>
  yields a non-empty buffer, and is finished when resumed after that; every other
  generator returns.\<close>

fun on_stop :: "'w gen \<Rightarrow> 'w ctx \<Rightarrow> 'w step" where
  "on_stop (G_batch sz buffer) c =
     (if buffer \<noteq> [] then Out (ListV buffer) Finished (add_batches c)
      else Halt Stop Finished c)"
| "on_stop g c = Halt Stop Finished c"

text \<open>A generator that answers \<^verbatim>\<open>next()\<close> without advancing its input: one that has
  ended, and \<^verbatim>\<open>flat_map\<close> in the middle of a \<^verbatim>\<open>yield from\<close>.\<close>

fun resume :: "'w gen \<Rightarrow> (signal \<times> 'w gen) option" where
  "resume Finished = Some (Stop, Finished)"
| "resume Failed = Some (Stop, Failed)"
| "resume (G_flat_map fn (y # ys)) = Some (Yield y, G_flat_map fn ys)"
| "resume g = None"

subsection \<open>The source and the composed generator\<close>

text \<open>The source is the sequence of its items: \<open>src i\<close> is the item at position \<open>i\<close>, and
  \<open>None\<close> where the iteration ends. An unbounded source has an item at every position.\<close>

type_synonym source = "nat \<Rightarrow> item option"

definition of_list :: "item list \<Rightarrow> source" where
  "of_list xs = (\<lambda>i. if i < length xs then Some (xs ! i) else None)"

text \<open>\<^verbatim>\<open>_source()\<close> of \<^verbatim>\<open>run\<close>: the counting layer over the source.\<close>

definition source_next :: "source \<Rightarrow> 'w ctx \<Rightarrow> signal \<times> 'w ctx" where
  "source_next src c =
     (case src (pos c) of
        None \<Rightarrow> (Stop, c)
      | Some x \<Rightarrow> (Yield x, add_processed (c\<lparr>pos := pos c + 1\<rparr>)))"

text \<open>What the caller of \<^verbatim>\<open>next()\<close> sees of the way a generator's body was left (PEP 479).\<close>

fun leave :: "signal \<Rightarrow> signal" where
  "leave (Raise StopIteration) = Raise RuntimeError"
| "leave s = s"

text \<open>What \<^verbatim>\<open>close()\<close> does to one generator. \<^verbatim>\<open>GeneratorExit\<close> is raised at the
  \<^verbatim>\<open>yield\<close> the generator is suspended at; a generator that has not started, or has
  ended, runs no code.

  \<^item> \<open>Released\<close>: the exception leaves the generator (no \<^verbatim>\<open>except\<close> clause around the
    \<^verbatim>\<open>yield\<close>, or one that does not match, or the handler raises), and its frame lets go
    of the generator below, which is closed in turn.
  \<^item> \<open>Held\<close>: the generator ends, or had ended, and the generator below is not let go of.
    \<^verbatim>\<open>retry_map\<close> catches the exception when \<^verbatim>\<open>exceptions\<close> matches it: it counts an
    error and goes on with the attempts it has left, whose outcome is dropped
    (\<^verbatim>\<open>close()\<close> reports a further \<^verbatim>\<open>yield\<close> or an exception to nobody). Its frame is then
    held through \<^verbatim>\<open>last_exc\<close>, as it is when \<^verbatim>\<open>last_exc\<close> was set by a failed attempt.
  \<^item> \<open>Again\<close>: \<^verbatim>\<open>catch\<close> catches the exception when \<^verbatim>\<open>exceptions\<close> matches it, calls
    \<^verbatim>\<open>on_error\<close>, counts an error, and goes on with its \<^verbatim>\<open>for\<close> loop.\<close>

datatype 'w closing = Released "'w ctx" | Held "'w ctx" | Again "'w gen" "'w ctx"

fun on_close :: "'w gen \<Rightarrow> 'w ctx \<Rightarrow> 'w closing" where
  "on_close (G_retry_map fn retries backoff exceptions (Some (x, left, last_exc))) c =
     (if exceptions GeneratorExit
      then (case attempts fn exceptions x left (Some GeneratorExit) (add_errors c) of
              (r, last_exc1, c1) \<Rightarrow> Held c1)
      else if last_exc = None then Released c else Held c)"
| "on_close (G_catch fn on_error exceptions (Some x)) c =
     (if exceptions GeneratorExit
      then (case call2 on_error x GeneratorExit c of
              (Inl e, c1) \<Rightarrow> Released c1
            | (Inr v, c1) \<Rightarrow> Again (G_catch fn on_error exceptions None) (add_errors c1))
      else Released c)"
| "on_close Finished c = Held c"
| "on_close g c = Released c"

text \<open>\<^verbatim>\<open>next()\<close> on the generator chain, and closing it. The list holds the generators from
  the last operator (the head) down to the first; below the first is the counting source,
  whose \<^verbatim>\<open>yield\<close> stands in no \<^verbatim>\<open>try\<close>.

  A generator that ends by \<^verbatim>\<open>break\<close> while the one below is suspended closes the chain
  below it. One that ends because its input has ended, or has raised, has nothing below
  it to close; one that raises keeps the chain below as it is, for as long as the
  exception is on its way out of \<^verbatim>\<open>run\<close>.

  Closing goes down the chain as far as the frames let go. When \<^verbatim>\<open>catch\<close> goes on with
  its loop it pulls from below until it yields again, ends or raises; none of these is
  reported, the generator object is freed and the chain below it is closed.\<close>

fun pull :: "source \<Rightarrow> nat \<Rightarrow> 'w gen list \<Rightarrow> 'w ctx \<Rightarrow> (signal \<times> 'w gen list \<times> 'w ctx) option"
and close :: "source \<Rightarrow> nat \<Rightarrow> 'w gen list \<Rightarrow> 'w ctx \<Rightarrow> ('w gen list \<times> 'w ctx) option" where
  "pull src fuel [] c = (case source_next src c of (s, c1) \<Rightarrow> Some (s, [], c1))"
| "pull src 0 (g # gs) c = None"
| "pull src (Suc k) (g # gs) c =
     (case resume g of
        Some (s, g1) \<Rightarrow> Some (s, g1 # gs, c)
      | None \<Rightarrow>
          (case pull src (Suc k) gs c of
             None \<Rightarrow> None
           | Some (Raise e, gs1, c1) \<Rightarrow> Some (Raise e, Failed # gs1, c1)
           | Some (Stop, gs1, c1) \<Rightarrow>
               (case on_stop g c1 of
                  Out y g1 c2 \<Rightarrow> Some (Yield y, g1 # gs1, c2)
                | Halt s g1 c2 \<Rightarrow> Some (leave s, g1 # gs1, c2)
                | Loop g1 c2 \<Rightarrow> Some (Stop, Finished # gs1, c2))
           | Some (Yield x, gs1, c1) \<Rightarrow>
               (case on_item g x c1 of
                  Out y g1 c2 \<Rightarrow> Some (Yield y, g1 # gs1, c2)
                | Halt s g1 c2 \<Rightarrow>
                    (case s of
                       Stop \<Rightarrow>
                         (case close src k gs1 c2 of
                            None \<Rightarrow> None
                          | Some (gs2, c3) \<Rightarrow> Some (Stop, g1 # gs2, c3))
                     | _ \<Rightarrow> Some (leave s, g1 # gs1, c2))
                | Loop g1 c2 \<Rightarrow> pull src k (g1 # gs1) c2)))"
| "close src fuel [] c = Some ([], c)"
| "close src fuel (g # gs) c =
     (case on_close g c of
        Released c1 \<Rightarrow>
          (case close src fuel gs c1 of
             None \<Rightarrow> None
           | Some (gs1, c2) \<Rightarrow> Some (Finished # gs1, c2))
      | Held c1 \<Rightarrow> Some (Finished # gs, c1)
      | Again g1 c1 \<Rightarrow>
          (case fuel of
             0 \<Rightarrow> None
           | Suc k \<Rightarrow>
               (case pull src k (g1 # gs) c1 of
                  None \<Rightarrow> None
                | Some (s, gs1, c2) \<Rightarrow>
                    (case close src k (tl gs1) c2 of
                       None \<Rightarrow> None
                     | Some (gs2, c3) \<Rightarrow> Some (Finished # gs2, c3)))))"

subsection \<open>The builder and run\<close>

record 'w pipe =
  source_of :: source
  ops :: "'w op list"

text \<open>The consuming loop of \<^verbatim>\<open>run\<close>: \<^verbatim>\<open>for item in pipeline\<close>. An exception leaves
  \<^verbatim>\<open>run\<close> with no statistics; what the callables did to the program state stays. The
  loop is no generator: an exception of the sink leaves \<^verbatim>\<open>run\<close> as it is.\<close>

fun drain :: "source \<Rightarrow> 'w callable option \<Rightarrow> nat \<Rightarrow> 'w gen list \<Rightarrow> 'w ctx
    \<Rightarrow> ((exn + run_stats) \<times> 'w) option" where
  "drain src sink 0 gs c = None"
| "drain src sink (Suc k) gs c =
     (case pull src (Suc k) gs c of
        None \<Rightarrow> None
      | Some (Stop, gs1, c1) \<Rightarrow> Some (Inr (stats c1), world c1)
      | Some (Raise e, gs1, c1) \<Rightarrow> Some (Inl e, world c1)
      | Some (Yield y, gs1, c1) \<Rightarrow>
          (case sink of
             None \<Rightarrow> drain src sink k gs1 (add_emitted c1)
           | Some f \<Rightarrow>
               (case call f y (add_emitted c1) of
                  (Inl e, c2) \<Rightarrow> Some (Inl e, world c2)
                | (Inr v, c2) \<Rightarrow> drain src sink k gs1 c2)))"

definition run :: "nat \<Rightarrow> 'w pipe \<Rightarrow> 'w callable option \<Rightarrow> 'w \<Rightarrow> ((exn + run_stats) \<times> 'w) option" where
  "run fuel p sink w =
     drain (source_of p) sink fuel (rev (map start (ops p)))
       \<lparr>stats = RunStats, pos = 0, world = w\<rparr>"


subsection \<open>Builder objects\<close>

text \<open>A \<^verbatim>\<open>Pipe\<close> object has two fields, set once by \<^verbatim>\<open>__init__\<close>: \<^verbatim>\<open>_source\<close>, a
  reference to the caller's source, and \<^verbatim>\<open>_ops\<close>, a reference to a list object. The
  heap holds the source objects and the list objects; a reference is an index into it, and
  allocating appends. The builder methods never write to a source.\<close>

record 'w heap =
  sources :: "source list"
  list_objs :: "'w op list list"

record pipe_obj =
  source_ref :: nat
  ops_ref :: nat

text \<open>\<^verbatim>\<open>Pipe(source, _ops)\<close>: with no \<^verbatim>\<open>_ops\<close> a new empty list is made.\<close>

definition Pipe :: "nat \<Rightarrow> nat option \<Rightarrow> 'w heap \<Rightarrow> pipe_obj \<times> 'w heap" where
  "Pipe source ops_arg h =
     (case ops_arg of
        Some l \<Rightarrow> (\<lparr>source_ref = source, ops_ref = l\<rparr>, h)
      | None \<Rightarrow> (\<lparr>source_ref = source, ops_ref = length (list_objs h)\<rparr>,
                 h\<lparr>list_objs := list_objs h @ [Nil]\<rparr>))"

text \<open>\<^verbatim>\<open>_add_op\<close>: \<^verbatim>\<open>self._ops + [op]\<close> is a new list object.\<close>

definition add_op :: "pipe_obj \<Rightarrow> 'w op \<Rightarrow> 'w heap \<Rightarrow> pipe_obj \<times> 'w heap" where
  "add_op self op h =
     (let new_list = list_objs h ! ops_ref self @ [op];
          l = length (list_objs h);
          h1 = h\<lparr>list_objs := list_objs h @ [new_list]\<rparr>
      in Pipe (source_ref self) (Some l) h1)"

definition map_pipe :: "'w callable \<Rightarrow> pipe_obj \<Rightarrow> 'w heap \<Rightarrow> pipe_obj \<times> 'w heap" where
  "map_pipe fn self h = add_op self (Map_op fn) h"

definition flat_map :: "'w callable \<Rightarrow> pipe_obj \<Rightarrow> 'w heap \<Rightarrow> pipe_obj \<times> 'w heap" where
  "flat_map fn self h = add_op self (Flat_map fn) h"

definition filter_pipe :: "'w callable \<Rightarrow> pipe_obj \<Rightarrow> 'w heap \<Rightarrow> pipe_obj \<times> 'w heap" where
  "filter_pipe fn self h = add_op self (Filter_op fn) h"

definition tap :: "'w callable \<Rightarrow> pipe_obj \<Rightarrow> 'w heap \<Rightarrow> pipe_obj \<times> 'w heap" where
  "tap fn self h = add_op self (Tap fn) h"

definition batch :: "int \<Rightarrow> pipe_obj \<Rightarrow> 'w heap \<Rightarrow> pipe_obj \<times> 'w heap" where
  "batch sz self h = add_op self (Batch sz) h"

text \<open>\<^verbatim>\<open>rate_limit\<close> computes \<^verbatim>\<open>min_interval = per / rate\<close> before it makes the closure:
  a zero rate raises \<^verbatim>\<open>ZeroDivisionError\<close> at construction.\<close>

definition rate_limit :: "real \<Rightarrow> real \<Rightarrow> pipe_obj \<Rightarrow> 'w heap \<Rightarrow> exn + pipe_obj \<times> 'w heap" where
  "rate_limit rate per self h =
     (if rate = 0 then Inl ZeroDivisionError
      else Inr (add_op self (Rate_limit (per / rate)) h))"

definition dedupe :: "'w callable option \<Rightarrow> int option \<Rightarrow> pipe_obj \<Rightarrow> 'w heap \<Rightarrow> pipe_obj \<times> 'w heap" where
  "dedupe key max_size self h = add_op self (Dedupe key max_size) h"

definition retry_map :: "'w callable \<Rightarrow> int \<Rightarrow> real \<Rightarrow> (exn \<Rightarrow> bool) \<Rightarrow> pipe_obj \<Rightarrow> 'w heap
    \<Rightarrow> pipe_obj \<times> 'w heap" where
  "retry_map fn retries backoff exceptions self h =
     add_op self (Retry_map fn retries backoff exceptions) h"

definition take_pipe :: "int \<Rightarrow> pipe_obj \<Rightarrow> 'w heap \<Rightarrow> pipe_obj \<times> 'w heap" where
  "take_pipe n self h = add_op self (Take_op n) h"

definition catch :: "'w callable \<Rightarrow> 'w handler \<Rightarrow> (exn \<Rightarrow> bool) \<Rightarrow> pipe_obj \<Rightarrow> 'w heap
    \<Rightarrow> pipe_obj \<times> 'w heap" where
  "catch fn on_error exceptions self h = add_op self (Catch fn on_error exceptions) h"

text \<open>What \<^verbatim>\<open>run\<close> reads of the object: the source and the operator list its fields
  point to.\<close>

definition contents :: "'w heap \<Rightarrow> pipe_obj \<Rightarrow> 'w pipe" where
  "contents h self = \<lparr>source_of = sources h ! source_ref self, ops = list_objs h ! ops_ref self\<rparr>"

definition run_obj :: "nat \<Rightarrow> 'w heap \<Rightarrow> pipe_obj \<Rightarrow> 'w callable option \<Rightarrow> 'w
    \<Rightarrow> ((exn + run_stats) \<times> 'w) option" where
  "run_obj fuel h self sink w = run fuel (contents h self) sink w"

text \<open>The effect a builder method is to have on the heap \<open>h\<close> when called on \<open>self\<close>
  with the operator \<open>op\<close>, where \<open>r\<close> is what the method returns: the new builder points
  to the source of \<open>self\<close> and to a list that is the list of \<open>self\<close> with \<open>op\<close> at its
  end; no source and no list that existed is changed; \<open>self\<close> runs as before.\<close>

definition appended :: "'w heap \<Rightarrow> pipe_obj \<Rightarrow> 'w op \<Rightarrow> pipe_obj \<times> 'w heap \<Rightarrow> bool" where
  "appended h self op r =
     (case r of (new, h1) \<Rightarrow>
        source_ref new = source_ref self
        \<and> sources h1 = sources h
        \<and> list_objs h1 ! ops_ref new = list_objs h ! ops_ref self @ [op]
        \<and> ops_ref new \<noteq> ops_ref self
        \<and> (\<forall>l < length (list_objs h). list_objs h1 ! l = list_objs h ! l)
        \<and> contents h1 self = contents h self
        \<and> (\<forall>fuel sink w. run_obj fuel h1 self sink w = run_obj fuel h self sink w))"

subsection \<open>Callables and sources used to state the properties\<close>

text \<open>\<^verbatim>\<open>result.append\<close>, the sink of the test suite: the program state is the list
  \<^verbatim>\<open>result\<close>, and the sink appends the item to it.\<close>

definition result_append :: "(item list) callable" where
  "result_append x result = (Inr NoneV, result @ [x])"

text \<open>A callable that computes \<open>f\<close>, raises nothing and neither reads nor changes the
  program state.\<close>

definition pure_call :: "(item \<Rightarrow> item) \<Rightarrow> 'w callable" where
  "pure_call f x w = (Inr (f x), w)"

text \<open>The source holds exactly the items \<open>xs\<close> from position \<open>p\<close> on.\<close>

definition feeds :: "source \<Rightarrow> nat \<Rightarrow> item list \<Rightarrow> bool" where
  "feeds src p xs = ((\<forall>i < length xs. src (p + i) = Some (xs ! i)) \<and> src (p + length xs) = None)"

subsection \<open>Generators over a finite input, without fuel\<close>

text \<open>\<^verbatim>\<open>next()\<close> on one generator whose input is the counting source over the items
  \<open>xs\<close>: the same steps as \<open>pull\<close> on a one-element chain, by recursion on the items
  left. It returns what the call gives, the generator, the items not yet pulled and the
  context. Lemma \<open>pull_single\<close> below shows that \<open>pull\<close> with enough fuel computes it.\<close>

fun feed_list :: "'w gen \<Rightarrow> item list \<Rightarrow> 'w ctx \<Rightarrow> signal \<times> 'w gen \<times> item list \<times> 'w ctx" where
  "feed_list g [] c =
     (case resume g of
        Some (s, g1) \<Rightarrow> (s, g1, [], c)
      | None \<Rightarrow>
          (case on_stop g c of
             Out y g1 c2 \<Rightarrow> (Yield y, g1, [], c2)
           | Halt s g1 c2 \<Rightarrow> (leave s, g1, [], c2)
           | Loop g1 c2 \<Rightarrow> (Stop, Finished, [], c2)))"
| "feed_list g (x # xs) c =
     (case resume g of
        Some (s, g1) \<Rightarrow> (s, g1, x # xs, c)
      | None \<Rightarrow>
          (case on_item g x (add_processed (c\<lparr>pos := pos c + 1\<rparr>)) of
             Out y g1 c2 \<Rightarrow> (Yield y, g1, xs, c2)
           | Halt s g1 c2 \<Rightarrow> (leave s, g1, xs, c2)
           | Loop g1 c2 \<Rightarrow> feed_list g1 xs c2))"

text \<open>The groups the loop of \<^verbatim>\<open>batch\<close> yields from a buffer and the items still to come.\<close>

fun batch_groups :: "int \<Rightarrow> item list \<Rightarrow> item list \<Rightarrow> item list list" where
  "batch_groups sz buffer [] = (if buffer \<noteq> [] then [buffer] else [])"
| "batch_groups sz buffer (x # xs) =
     (if int (length (buffer @ [x])) = sz then (buffer @ [x]) # batch_groups sz [] xs
      else batch_groups sz (buffer @ [x]) xs)"

text \<open>The items the loop of \<^verbatim>\<open>dedupe\<close> yields, given the keys of \<^verbatim>\<open>seen\<close> (oldest first)
  and the items still to come, for a key function that does not raise. \<open>evict\<close> is the
  \<^verbatim>\<open>popitem(last=False)\<close> done when the dictionary has grown beyond \<^verbatim>\<open>max_size\<close>.\<close>

definition evict :: "int option \<Rightarrow> item list \<Rightarrow> item list" where
  "evict max_size seen1 =
     (case max_size of
        None \<Rightarrow> seen1
      | Some m \<Rightarrow> if int (length seen1) > m then tl seen1 else seen1)"

fun dedupe_keep :: "(item \<Rightarrow> item) \<Rightarrow> int option \<Rightarrow> item list \<Rightarrow> item list \<Rightarrow> item list" where
  "dedupe_keep kf max_size seen [] = []"
| "dedupe_keep kf max_size seen (x # xs) =
     (if kf x \<notin> set seen then x # dedupe_keep kf max_size (evict max_size (seen @ [kf x])) xs
      else dedupe_keep kf max_size seen xs)"

text \<open>The \<^verbatim>\<open>key\<close> argument of \<^verbatim>\<open>dedupe\<close> computes \<open>kf\<close>: no key is the identity, and a
  key callable is one that raises nothing and leaves the program state alone.\<close>

definition key_is :: "'w callable option \<Rightarrow> (item \<Rightarrow> item) \<Rightarrow> bool" where
  "key_is key kf = (case key of None \<Rightarrow> kf = (\<lambda>x. x) | Some k \<Rightarrow> k = pure_call kf)"

subsection \<open>What the specification asks of dedupe\<close>

text \<open>With no bound: the items, in input order, whose key no earlier item has.\<close>

definition first_occurrences :: "(item \<Rightarrow> item) \<Rightarrow> item list \<Rightarrow> item list" where
  "first_occurrences kf xs =
     map (\<lambda>i. xs ! i) (filter (\<lambda>i. kf (xs ! i) \<notin> kf ` set (take i xs)) [0..<length xs])"

text \<open>With the bound \<open>k\<close>: an item is suppressed when its key is among the keys of the
  \<open>k\<close> items emitted last; \<open>acc\<close> holds the items emitted so far.\<close>

fun window_dedupe :: "(item \<Rightarrow> item) \<Rightarrow> nat \<Rightarrow> item list \<Rightarrow> item list \<Rightarrow> item list" where
  "window_dedupe kf k acc [] = []"
| "window_dedupe kf k acc (x # xs) =
     (if kf x \<in> set (drop (length acc - k) (map kf acc)) then window_dedupe kf k acc xs
      else x # window_dedupe kf k (acc @ [x]) xs)"

subsection \<open>Observing the calls of a callable\<close>









text \<open>A callable for \<^verbatim>\<open>tap\<close> that only counts its calls.\<close>

definition count_call :: "nat callable" where
  "count_call x calls = (Inr NoneV, Suc calls)"

subsection \<open>Chains without flat-map\<close>

fun is_flat_map :: "'w op \<Rightarrow> bool" where
  "is_flat_map (Flat_map fn) = True"
| "is_flat_map op = False"

fun gen_flat_map :: "'w gen \<Rightarrow> bool" where
  "gen_flat_map (G_flat_map fn rest) = True"
| "gen_flat_map g = False"

text \<open>An item a generator has taken from its input and not yet passed on: \<^verbatim>\<open>batch\<close> with a
  non-empty buffer owes one output.\<close>

fun credit :: "'w gen \<Rightarrow> int" where
  "credit (G_batch sz buffer) = (if buffer \<noteq> [] then 1 else 0)"
| "credit g = 0"

definition credits :: "'w gen list \<Rightarrow> int" where
  "credits gs = sum_list (map credit gs)"

text \<open>Two contexts agree on the counters of the source layer and of the loop of
  \<^verbatim>\<open>run\<close>. The counters \<^verbatim>\<open>processed\<close> and \<^verbatim>\<open>emitted\<close> belong to the source layer and to the
  loop of \<^verbatim>\<open>run\<close>: no generator writes them.\<close>

definition same_counts :: "'w ctx \<Rightarrow> 'w ctx \<Rightarrow> bool" where
  "same_counts c c1 = (processed (stats c1) = processed (stats c) \<and> emitted (stats c1) = emitted (stats c))"

text \<open>The number of items a signal carries.\<close>

definition yields :: "signal \<Rightarrow> int" where
  "yields s = (case s of Yield y \<Rightarrow> 1 | _ \<Rightarrow> 0)"

subsection \<open>Pure operator functions\<close>

text \<open>A callable is pure and deterministic when what it returns or raises depends on its
  argument only and it leaves the program state as it found it.\<close>

definition stateless :: "'w callable \<Rightarrow> bool" where
  "stateless fn = (\<forall>x w w'. fst (fn x w) = fst (fn x w') \<and> snd (fn x w) = w)"

definition stateless2 :: "'w handler \<Rightarrow> bool" where
  "stateless2 fn = (\<forall>x e w w'. fst (fn x e w) = fst (fn x e w') \<and> snd (fn x e w) = w)"

fun pure_op :: "'w op \<Rightarrow> bool" where
  "pure_op (Map_op fn) = stateless fn"
| "pure_op (Flat_map fn) = stateless fn"
| "pure_op (Filter_op fn) = stateless fn"
| "pure_op (Tap fn) = stateless fn"
| "pure_op (Batch sz) = True"
| "pure_op (Rate_limit min_interval) = True"
| "pure_op (Dedupe key max_size) = (case key of None \<Rightarrow> True | Some k \<Rightarrow> stateless k)"
| "pure_op (Retry_map fn retries backoff exceptions) = stateless fn"
| "pure_op (Take_op n) = True"
| "pure_op (Catch fn on_error exceptions) = (stateless fn \<and> stateless2 on_error)"

fun pure_gen :: "'w gen \<Rightarrow> bool" where
  "pure_gen (G_map fn) = stateless fn"
| "pure_gen (G_flat_map fn rest) = stateless fn"
| "pure_gen (G_filter fn) = stateless fn"
| "pure_gen (G_tap fn) = stateless fn"
| "pure_gen (G_batch sz buffer) = True"
| "pure_gen (G_rate_limit min_interval) = True"
| "pure_gen (G_dedupe key max_size seen) = (case key of None \<Rightarrow> True | Some k \<Rightarrow> stateless k)"
| "pure_gen (G_retry_map fn retries backoff exceptions at_yield) = stateless fn"
| "pure_gen (G_take n count) = True"
| "pure_gen (G_catch fn on_error exceptions at_yield) = (stateless fn \<and> stateless2 on_error)"
| "pure_gen Finished = True"
| "pure_gen Failed = True"

text \<open>A step with the program state of its context replaced.\<close>

fun with_world :: "'w \<Rightarrow> 'w step \<Rightarrow> 'w step" where
  "with_world w (Out y g c) = Out y g (c\<lparr>world := w\<rparr>)"
| "with_world w (Halt s g c) = Halt s g (c\<lparr>world := w\<rparr>)"
| "with_world w (Loop g c) = Loop g (c\<lparr>world := w\<rparr>)"

section \<open>Basic facts\<close>

declare pull.simps [simp del] close.simps(2) [simp del] drain.simps [simp del]

lemmas ctx_defs = add_dropped_def add_batches_def add_errors_def add_processed_def add_emitted_def

lemma feeds_of_list: "feeds (of_list xs) 0 xs"
  by (simp add: feeds_def of_list_def)

lemma feeds_Nil: "feeds src p [] \<Longrightarrow> src p = None"
  by (simp add: feeds_def)

lemma feeds_Cons: "feeds src p (x # xs) \<Longrightarrow> src p = Some x \<and> feeds src (Suc p) xs"
proof -
  assume a: "feeds src p (x # xs)"
  then have "src (p + 0) = Some ((x # xs) ! 0)"
    unfolding feeds_def by (metis length_greater_0_conv list.distinct(1))
  moreover have "\<forall>i < length xs. src (Suc p + i) = Some (xs ! i)"
  proof (intro allI impI)
    fix i assume "i < length xs"
    then have "src (p + Suc i) = Some ((x # xs) ! Suc i)"
      using a unfolding feeds_def by (metis Suc_less_eq length_Cons)
    then show "src (Suc p + i) = Some (xs ! i)" by simp
  qed
  moreover have "src (Suc p + length xs) = None"
    using a by (simp add: feeds_def)
  ultimately show ?thesis by (simp add: feeds_def)
qed

lemma pull_Finished: "pull src (Suc k) (Finished # gs) c = Some (Stop, Finished # gs, c)"
  by (simp add: pull.simps)

lemma close_Released:
  "on_close g c = Released c1 \<Longrightarrow>
   close src fuel (g # gs) c = map_option (\<lambda>(gs1, c2). (Finished # gs1, c2)) (close src fuel gs c1)"
  by (simp add: close.simps(2) split: option.splits)

lemma close_Held: "on_close g c = Held c1 \<Longrightarrow> close src fuel (g # gs) c = Some (Finished # gs, c1)"
  by (simp add: close.simps(2))

section \<open>One generator over a finite source\<close>

lemma on_item_Loop_pos: "on_item g x c = Loop g1 c1 \<Longrightarrow> pos c1 = pos c"
  by (cases g)
     (auto simp: ctx_defs Let_def call_def call2_def
           split: prod.splits sum.splits list.splits if_splits option.splits)

lemma pull_single:
  "feeds src (pos c) xs \<Longrightarrow> length xs < k \<Longrightarrow>
   pull src k [g] c = Some (case feed_list g xs c of (s, g1, rest, c1) \<Rightarrow> (s, [g1], c1))"
proof (induction xs arbitrary: g c k)
  case Nil
  then obtain j where j: "k = Suc j" by (cases k) auto
  from Nil have "src (pos c) = None" by (simp add: feeds_Nil)
  then show ?case
    by (simp add: j pull.simps source_next_def split: option.splits step.splits)
next
  case (Cons x xs)
  then obtain j where j: "k = Suc j" by (cases k) auto
  from Cons.prems have x: "src (pos c) = Some x" and f: "feeds src (Suc (pos c)) xs"
    by (auto dest: feeds_Cons)
  let ?c1 = "add_processed (c\<lparr>pos := Suc (pos c)\<rparr>)"
  show ?case
  proof (cases "resume g")
    case (Some a)
    then show ?thesis by (simp add: j pull.simps split: prod.splits)
  next
    case None
    show ?thesis
    proof (cases "on_item g x ?c1")
      case (Out y g1 c2)
      then show ?thesis by (simp add: j pull.simps source_next_def x None)
    next
      case (Halt s g1 c2)
      then show ?thesis
        by (cases s) (simp_all add: j pull.simps source_next_def x None)
    next
      case (Loop g1 c2)
      then have "pos c2 = Suc (pos c)" by (auto dest: on_item_Loop_pos simp: ctx_defs)
      with f have f2: "feeds src (pos c2) xs" by simp
      have l: "length xs < j" using Cons.prems j by simp
      show ?thesis
        by (simp add: j pull.simps source_next_def x None Loop Cons.IH [OF f2 l])
    qed
  qed
qed

section \<open>take\<close>

lemma pull_take:
  "pull src (Suc k) [G_take n cnt] c =
     (case src (pos c) of
        None \<Rightarrow> Some (Stop, [Finished], c)
      | Some x \<Rightarrow>
          if cnt \<ge> n then Some (Stop, [Finished], add_processed (c\<lparr>pos := pos c + 1\<rparr>))
          else Some (Yield x, [G_take n (cnt + 1)], add_processed (c\<lparr>pos := pos c + 1\<rparr>)))"
  by (simp add: pull.simps source_next_def split: option.splits)

text \<open>The input holds more items than \<^verbatim>\<open>take\<close> still wants: it yields them, advances its
  input once more, and only then sees that the limit is reached.\<close>

lemma drain_take_more:
  "\<forall>i \<le> m. src (pos c + i) \<noteq> None \<Longrightarrow> m = nat (n - cnt) \<Longrightarrow> m < fuel \<Longrightarrow>
   drain src (Some result_append) fuel [G_take n cnt] c =
     Some (Inr ((stats c)\<lparr>processed := processed (stats c) + int m + 1,
                          emitted := emitted (stats c) + int m\<rparr>),
           world c @ map (\<lambda>i. the (src (pos c + i))) [0..<m])"
proof (induction m arbitrary: c cnt fuel)
  case 0
  then obtain k where k: "fuel = Suc k" by (cases fuel) auto
  from 0 obtain x where x: "src (pos c) = Some x" by auto
  from 0 have "cnt \<ge> n" by simp
  then show ?case by (simp add: k drain.simps pull_take x ctx_defs)
next
  case (Suc m)
  then obtain k where k: "fuel = Suc k" by (cases fuel) auto
  from Suc.prems obtain x where x: "src (pos c) = Some x" by force
  from Suc.prems have lt: "\<not> cnt \<ge> n" by simp
  let ?c1 = "add_processed (c\<lparr>pos := pos c + 1\<rparr>)"
  let ?c2 = "(add_emitted ?c1)\<lparr>world := world c @ [x]\<rparr>"
  have step: "drain src (Some result_append) fuel [G_take n cnt] c =
     drain src (Some result_append) k [G_take n (cnt + 1)] ?c2"
    by (simp add: k drain.simps pull_take x lt call_def result_append_def ctx_defs)
  have a: "\<forall>i \<le> m. src (pos ?c2 + i) \<noteq> None"
    using Suc.prems(1) by (auto simp: ctx_defs dest: spec [of _ "Suc i" for i])
  have b: "m = nat (n - (cnt + 1))" using Suc.prems by simp
  have c: "m < k" using Suc.prems k by simp
  have shift: "map (\<lambda>i. the (src (pos c + i))) [0..<Suc m] =
      x # map (\<lambda>i. the (src (pos ?c2 + i))) [0..<m]"
    by (simp add: ctx_defs x upt_rec [of 0] map_Suc_upt [symmetric] del: upt_Suc)
  show ?case
    unfolding step Suc.IH [OF a b c] shift by (simp add: ctx_defs)
qed

text \<open>The input ends before the limit is reached: every item is yielded, and nothing is
  pulled beyond the end.\<close>

lemma drain_take_fewer:
  "feeds src (pos c) xs \<Longrightarrow> int (length xs) \<le> n - cnt \<Longrightarrow> length xs < fuel \<Longrightarrow>
   drain src (Some result_append) fuel [G_take n cnt] c =
     Some (Inr ((stats c)\<lparr>processed := processed (stats c) + int (length xs),
                          emitted := emitted (stats c) + int (length xs)\<rparr>),
           world c @ xs)"
proof (induction xs arbitrary: c cnt fuel)
  case Nil
  then obtain k where k: "fuel = Suc k" by (cases fuel) auto
  from Nil have "src (pos c) = None" by (simp add: feeds_Nil)
  then show ?case by (simp add: k drain.simps pull_take)
next
  case (Cons x xs)
  then obtain k where k: "fuel = Suc k" by (cases fuel) auto
  from Cons.prems have x: "src (pos c) = Some x" and f: "feeds src (Suc (pos c)) xs"
    by (auto dest: feeds_Cons)
  from Cons.prems have lt: "\<not> cnt \<ge> n" by simp
  let ?c1 = "add_processed (c\<lparr>pos := pos c + 1\<rparr>)"
  let ?c2 = "(add_emitted ?c1)\<lparr>world := world c @ [x]\<rparr>"
  have step: "drain src (Some result_append) fuel [G_take n cnt] c =
     drain src (Some result_append) k [G_take n (cnt + 1)] ?c2"
    by (simp add: k drain.simps pull_take x lt call_def result_append_def ctx_defs)
  have a: "feeds src (pos ?c2) xs" using f by (simp add: ctx_defs)
  have b: "int (length xs) \<le> n - (cnt + 1)" using Cons.prems by simp
  have c: "length xs < k" using Cons.prems k by simp
  show ?case
    unfolding step Cons.IH [OF a b c] by (simp add: ctx_defs)
qed

lemma map_the_of_list:
  "n \<le> length xs \<Longrightarrow> map (\<lambda>i. the (of_list xs i)) [0..<n] = take n xs"
  by (rule nth_equalityI) (simp_all add: of_list_def)

lemma run_take_list:
  assumes "n < fuel"
  shows "run fuel \<lparr>source_of = of_list xs, ops = [Take_op (int n)]\<rparr> (Some result_append) [] =
     Some (Inr \<lparr>processed = int (min (Suc n) (length xs)), emitted = int (min n (length xs)),
                dropped = 0, batches = 0, errors = 0\<rparr>, take n xs)"
proof (cases "n < length xs")
  case True
  let ?c = "\<lparr>stats = RunStats, pos = 0, world = []::item list\<rparr>"
  have a: "\<forall>i \<le> n. of_list xs (pos ?c + i) \<noteq> None" using True by (simp add: of_list_def)
  have b: "n = nat (int n - 0)" by simp
  have m: "min (Suc n) (length xs) = Suc n" "min n (length xs) = n" using True by simp_all
  show ?thesis
    unfolding run_def using drain_take_more [OF a b assms] True
    by (simp add: map_the_of_list RunStats_def m)
next
  case False
  let ?c = "\<lparr>stats = RunStats, pos = 0, world = []::item list\<rparr>"
  have a: "feeds (of_list xs) (pos ?c) xs" by (simp add: feeds_of_list)
  have b: "int (length xs) \<le> int n - 0" using False by simp
  have c: "length xs < fuel" using False assms by simp
  have m: "min (Suc n) (length xs) = length xs" "min n (length xs) = length xs"
    using False by simp_all
  show ?thesis
    unfolding run_def using drain_take_fewer [OF a b c] False
    by (simp add: RunStats_def m)
qed

lemma run_take_more:
  assumes "\<forall>i \<le> n. src i \<noteq> None" and "n < fuel"
  shows "run fuel \<lparr>source_of = src, ops = [Take_op (int n)]\<rparr> (Some result_append) [] =
     Some (Inr \<lparr>processed = int n + 1, emitted = int n, dropped = 0, batches = 0, errors = 0\<rparr>,
           map (\<lambda>i. the (src i)) [0..<n])"
proof -
  let ?c = "\<lparr>stats = RunStats, pos = 0, world = []::item list\<rparr>"
  have a: "\<forall>i \<le> n. src (pos ?c + i) \<noteq> None" using assms(1) by simp
  have b: "n = nat (int n - 0)" by simp
  show ?thesis
    unfolding run_def using drain_take_more [OF a b assms(2)]
    by (simp add: RunStats_def)
qed


lemma pull_take_Cons:
  "pull src (Suc k) (G_take n cnt # gs) c =
     (case pull src (Suc k) gs c of
        None \<Rightarrow> None
      | Some (Yield x, gs1, c1) \<Rightarrow>
          if cnt \<ge> n
          then map_option (\<lambda>(gs2, c2). (Stop, Finished # gs2, c2)) (close src k gs1 c1)
          else Some (Yield x, G_take n (cnt + 1) # gs1, c1)
      | Some (Stop, gs1, c1) \<Rightarrow> Some (Stop, Finished # gs1, c1)
      | Some (Raise e, gs1, c1) \<Rightarrow> Some (Raise e, Failed # gs1, c1))"
  by (simp add: pull.simps split: option.splits prod.splits signal.splits)

lemma take_stopped:
  assumes "pull src (Suc k) (G_take n cnt # gs) c = Some (Stop, gs1, c1)"
  shows "pull src (Suc j) gs1 c1 = Some (Stop, gs1, c1)"
proof -
  from assms obtain gs2 where "gs1 = Finished # gs2"
    unfolding pull_take_Cons
    by (auto split: option.splits prod.splits signal.splits if_splits)
  then show ?thesis by (simp add: pull_Finished)
qed

lemma pull_take_tap:
  "pull src (Suc k) [G_take n cnt, G_tap count_call] c =
     (case src (pos c) of
        None \<Rightarrow> Some (Stop, [Finished, Finished], c)
      | Some x \<Rightarrow>
          if cnt \<ge> n
          then Some (Stop, [Finished, Finished],
                     (add_processed (c\<lparr>pos := pos c + 1\<rparr>))\<lparr>world := Suc (world c)\<rparr>)
          else Some (Yield x, [G_take n (cnt + 1), G_tap count_call],
                     (add_processed (c\<lparr>pos := pos c + 1\<rparr>))\<lparr>world := Suc (world c)\<rparr>))"
  by (simp add: pull_take_Cons pull.simps source_next_def call_def count_call_def ctx_defs
      close_Released split: option.splits)

lemma drain_take_tap:
  "\<forall>i \<le> m. src (pos c + i) \<noteq> None \<Longrightarrow> m = nat (n - cnt) \<Longrightarrow> m < fuel \<Longrightarrow>
   drain src None fuel [G_take n cnt, G_tap count_call] c =
     Some (Inr ((stats c)\<lparr>processed := processed (stats c) + int m + 1,
                          emitted := emitted (stats c) + int m\<rparr>),
           world c + m + 1)"
proof (induction m arbitrary: c cnt fuel)
  case 0
  then obtain k where k: "fuel = Suc k" by (cases fuel) auto
  from 0 obtain x where x: "src (pos c) = Some x" by auto
  from 0 have "cnt \<ge> n" by simp
  then show ?case by (simp add: k drain.simps pull_take_tap x ctx_defs)
next
  case (Suc m)
  then obtain k where k: "fuel = Suc k" by (cases fuel) auto
  from Suc.prems obtain x where x: "src (pos c) = Some x" by force
  from Suc.prems have lt: "\<not> cnt \<ge> n" by simp
  let ?c2 = "add_emitted ((add_processed (c\<lparr>pos := pos c + 1\<rparr>))\<lparr>world := Suc (world c)\<rparr>)"
  have step: "drain src None fuel [G_take n cnt, G_tap count_call] c =
     drain src None k [G_take n (cnt + 1), G_tap count_call] ?c2"
    by (simp add: k drain.simps pull_take_tap x lt)
  have a: "\<forall>i \<le> m. src (pos ?c2 + i) \<noteq> None"
    using Suc.prems(1) by (auto simp: ctx_defs dest: spec [of _ "Suc i" for i])
  have b: "m = nat (n - (cnt + 1))" using Suc.prems by simp
  have c: "m < k" using Suc.prems k by simp
  show ?case
    unfolding step Suc.IH [OF a b c] by (simp add: ctx_defs)
qed

lemma run_take_tap:
  assumes "\<forall>i \<le> n. src i \<noteq> None" and "n < fuel"
  shows "run fuel \<lparr>source_of = src, ops = [Tap count_call, Take_op (int n)]\<rparr> None 0 =
     Some (Inr \<lparr>processed = int n + 1, emitted = int n, dropped = 0, batches = 0, errors = 0\<rparr>,
           n + 1)"
proof -
  let ?c = "\<lparr>stats = RunStats, pos = 0, world = 0::nat\<rparr>"
  have a: "\<forall>i \<le> n. src (pos ?c + i) \<noteq> None" using assms(1) by simp
  have b: "n = nat (int n - 0)" by simp
  show ?thesis
    unfolding run_def using drain_take_tap [OF a b assms(2)]
    by (simp add: RunStats_def)
qed

text \<open>
  Claim C2, as the code has it. For every \<open>n \<ge> 0\<close>, \<^verbatim>\<open>take(n)\<close> over an \<open>N\<close>-item
  source emits exactly the first \<open>min(n, N)\<close> items in order, and over an unbounded source
  exactly the first \<open>n\<close>, and the run ends (any fuel above \<open>n\<close> is enough); \<open>n = 0\<close>
  emits nothing. The source is pulled at most \<open>n + 1\<close> times; and once \<^verbatim>\<open>take\<close> has
  signalled the end, a further \<^verbatim>\<open>next()\<close> on it gives the end again and reaches neither
  the operators below it nor the source.
\<close>

theorem take_emits_first_n:
  assumes "n < fuel"
  shows "(\<exists>st. run fuel \<lparr>source_of = of_list xs, ops = [Take_op (int n)]\<rparr> (Some result_append) [] =
              Some (Inr st, take n xs)
            \<and> emitted st = int (min n (length xs)) \<and> processed st \<le> int n + 1)
       \<and> (\<exists>st. run fuel \<lparr>source_of = (\<lambda>i. Some (f i)), ops = [Take_op (int n)]\<rparr>
                (Some result_append) [] =
              Some (Inr st, map f [0..<n])
            \<and> emitted st = int n \<and> processed st \<le> int n + 1)
       \<and> (pull src (Suc k) (G_take m cnt # gs) c = Some (Stop, gs1, c1) \<longrightarrow>
            pull src (Suc j) gs1 c1 = Some (Stop, gs1, c1))"
proof -
  have inf: "\<forall>i \<le> n. (\<lambda>i. Some (f i)) i \<noteq> None" by simp
  have m: "map (\<lambda>i. the (Some (f i))) [0..<n] = map f [0..<n]" by simp
  have a: "\<exists>st. run fuel \<lparr>source_of = of_list xs, ops = [Take_op (int n)]\<rparr> (Some result_append) [] =
              Some (Inr st, take n xs)
            \<and> emitted st = int (min n (length xs)) \<and> processed st \<le> int n + 1"
    unfolding run_take_list [OF assms, of xs] by simp
  have b: "\<exists>st. run fuel \<lparr>source_of = (\<lambda>i. Some (f i)), ops = [Take_op (int n)]\<rparr>
                (Some result_append) [] =
              Some (Inr st, map f [0..<n])
            \<and> emitted st = int n \<and> processed st \<le> int n + 1"
    unfolding run_take_more [OF inf assms] m by simp
  from a b take_stopped show ?thesis by blast
qed

theorem take_emits_first_n_witness:
  "(2::nat) < 5
   \<and> (\<exists>st. run 5 \<lparr>source_of = of_list [IntV 7, IntV 8, IntV 9], ops = [Take_op 2]\<rparr>
             (Some result_append) [] = Some (Inr st, [IntV 7, IntV 8])
           \<and> emitted st = 2 \<and> processed st \<le> 3)
   \<and> (\<exists>st. run 5 \<lparr>source_of = (\<lambda>i. Some (IntV (int i))), ops = [Take_op 2]\<rparr>
             (Some result_append) [] = Some (Inr st, [IntV 0, IntV 1])
           \<and> emitted st = 2 \<and> processed st \<le> 3)"
proof -
  have h: "(2::nat) < 5" by simp
  have u: "[0..<2] = [0, Suc 0]" by (simp add: upt_rec)
  note t = take_emits_first_n [OF h, where xs = "[IntV 7, IntV 8, IntV 9]"
      and f = "\<lambda>i. IntV (int i)"]
  from t [THEN conjunct1] t [THEN conjunct2, THEN conjunct1] h
  show ?thesis by (simp add: u)
qed

text \<open>
  Claim C2 as stated fails: \<^verbatim>\<open>take(0)\<close> over \<^verbatim>\<open>[1, 2, 3]\<close> emits nothing, yet one item
  has been pulled from the source (\<open>processed = 1\<close>).
\<close>

theorem take_zero_still_pulls:
  "run 5 \<lparr>source_of = of_list [IntV 1, IntV 2, IntV 3], ops = [Take_op 0]\<rparr>
     (Some result_append) [] =
   Some (Inr \<lparr>processed = 1, emitted = 0, dropped = 0, batches = 0, errors = 0\<rparr>, [])"
  using run_take_list [of 0 5 "[IntV 1, IntV 2, IntV 3]"] by simp

text \<open>
  Claim C9. When the input of \<^verbatim>\<open>take(n)\<close> holds more than \<open>n\<close> items (\<open>n \<ge> 0\<close>), the
  run pulls exactly \<open>n + 1\<close> items from it and emits \<open>n\<close>: over any source, finite or not,
  with an item at each of the positions \<open>0, \<dots>, n\<close> the run returns \<open>processed = n + 1\<close>
  and \<open>emitted = n\<close>; in particular \<^verbatim>\<open>take(0)\<close> over a non-empty source gives
  \<open>processed = 1\<close> and \<open>emitted = 0\<close>. An operator below \<^verbatim>\<open>take\<close> is pulled as often:
  a \<^verbatim>\<open>tap\<close> between the source and \<^verbatim>\<open>take(n)\<close> has its function called \<open>n + 1\<close>
  times. The reason, over any chain of operators below:
  \<^verbatim>\<open>take\<close> advances its input first and tests \<^verbatim>\<open>count >= n\<close> on the item it got, so the
  call that finds the limit reached has already taken one more item from below; it then
  ends, and the chain below, left where that item put it, is closed.
\<close>

theorem take_pulls_one_more:
  assumes "\<forall>i \<le> n. src i \<noteq> None" and "n < fuel"
  shows "run fuel \<lparr>source_of = src, ops = [Take_op (int n)]\<rparr> (Some result_append) [] =
           Some (Inr \<lparr>processed = int n + 1, emitted = int n, dropped = 0, batches = 0, errors = 0\<rparr>,
                 map (\<lambda>i. the (src i)) [0..<n])
       \<and> run fuel \<lparr>source_of = src, ops = [Tap count_call, Take_op (int n)]\<rparr> None 0 =
           Some (Inr \<lparr>processed = int n + 1, emitted = int n, dropped = 0, batches = 0, errors = 0\<rparr>,
                 n + 1)
       \<and> (pull src' (Suc k) gs c = Some (Yield x, gs1, c1) \<longrightarrow>
            pull src' (Suc k) (G_take m cnt # gs) c =
              (if cnt \<ge> m
               then map_option (\<lambda>(gs2, c2). (Stop, Finished # gs2, c2)) (close src' k gs1 c1)
               else Some (Yield x, G_take m (cnt + 1) # gs1, c1)))"
  using run_take_more [OF assms] run_take_tap [OF assms] by (simp add: pull_take_Cons)

theorem take_pulls_one_more_witness:
  "(0::nat) < 3
   \<and> run 3 \<lparr>source_of = of_list [IntV 4, IntV 5], ops = [Take_op 0]\<rparr> (Some result_append) [] =
       Some (Inr \<lparr>processed = 1, emitted = 0, dropped = 0, batches = 0, errors = 0\<rparr>, [])
   \<and> run 3 \<lparr>source_of = of_list [IntV 4, IntV 5], ops = [Tap count_call, Take_op 0]\<rparr> None 0 =
       Some (Inr \<lparr>processed = 1, emitted = 0, dropped = 0, batches = 0, errors = 0\<rparr>, 1)"
proof -
  have h1: "\<forall>i \<le> 0. of_list [IntV 4, IntV 5] i \<noteq> None" by (simp add: of_list_def)
  have h2: "(0::nat) < 3" by simp
  note t = take_pulls_one_more [OF h1 h2]
  from t [THEN conjunct1] t [THEN conjunct2, THEN conjunct1] h2 show ?thesis by simp
qed

section \<open>batch\<close>

lemma drain_cong_pull:
  "pull src (Suc k) gs c = pull src (Suc k) gs' c' \<Longrightarrow>
   drain src sink (Suc k) gs c = drain src sink (Suc k) gs' c'"
  by (simp add: drain.simps)

lemma drain_batch:
  "feeds src (pos c) xs \<Longrightarrow> length xs + 1 < fuel \<Longrightarrow>
   drain src (Some result_append) fuel [G_batch sz buf] c =
     Some (Inr ((stats c)\<lparr>processed := processed (stats c) + int (length xs),
                          emitted := emitted (stats c) + int (length (batch_groups sz buf xs)),
                          batches := batches (stats c) + int (length (batch_groups sz buf xs))\<rparr>),
           world c @ map ListV (batch_groups sz buf xs))"
proof (induction xs arbitrary: buf c fuel)
  case Nil
  then obtain k where k: "fuel = Suc (Suc k)" by (cases fuel; cases "fuel - 1") auto
  have p: "pull src fuel [G_batch sz buf] c =
      Some (case feed_list (G_batch sz buf) [] c of (s, g1, rest, c1) \<Rightarrow> (s, [g1], c1))"
    by (rule pull_single) (use Nil in auto)
  show ?case
    using p unfolding k
    by (simp add: drain.simps(2) [where k = "Suc k"] drain.simps(2) [where k = k] pull_Finished call_def
        result_append_def ctx_defs)
next
  case (Cons x xs)
  then obtain k where k: "fuel = Suc k" by (cases fuel) auto
  from Cons.prems have x: "src (pos c) = Some x" and f: "feeds src (Suc (pos c)) xs"
    by (auto dest: feeds_Cons)
  let ?c1 = "add_processed (c\<lparr>pos := Suc (pos c)\<rparr>)"
  have p: "pull src (Suc k) [G_batch sz buf] c =
      Some (case feed_list (G_batch sz buf) (x # xs) c of (s, g1, rest, c1) \<Rightarrow> (s, [g1], c1))"
    by (rule pull_single) (use Cons.prems k in auto)
  show ?case
  proof (cases "int (length (buf @ [x])) = sz")
    case True
    let ?c2 = "(add_emitted (add_batches ?c1))\<lparr>world := world c @ [ListV (buf @ [x])]\<rparr>"
    have step: "drain src (Some result_append) fuel [G_batch sz buf] c =
        drain src (Some result_append) k [G_batch sz []] ?c2"
      using p True unfolding k
      by (simp add: drain.simps(2) [where k = k] call_def result_append_def ctx_defs)
    have a: "feeds src (pos ?c2) xs" using f by (simp add: ctx_defs)
    have b: "length xs + 1 < k" using Cons.prems k by simp
    show ?thesis
      unfolding step Cons.IH [OF a b] using True by (simp add: ctx_defs)
  next
    case False
    have a: "feeds src (pos ?c1) xs" using f by (simp add: ctx_defs)
    have b: "length xs + 1 < Suc k" using Cons.prems k by simp
    have b': "length xs < Suc k" using b by simp
    have "pull src (Suc k) [G_batch sz buf] c = pull src (Suc k) [G_batch sz (buf @ [x])] ?c1"
      unfolding p pull_single [OF a b'] using False by simp
    then have step: "drain src (Some result_append) fuel [G_batch sz buf] c =
        drain src (Some result_append) (Suc k) [G_batch sz (buf @ [x])] ?c1"
      unfolding k by (rule drain_cong_pull)
    show ?thesis
      unfolding step Cons.IH [OF a b] using False by (simp add: ctx_defs)
  qed
qed

lemma batch_groups_concat: "concat (batch_groups sz buf xs) = buf @ xs"
  by (induction xs arbitrary: buf) auto

lemma batch_groups_nonpos:
  "sz \<le> 0 \<Longrightarrow> batch_groups sz buf xs = (if buf @ xs = [] then [] else [buf @ xs])"
  by (induction xs arbitrary: buf) auto

lemma batch_groups_single:
  "int (length buf + length xs) \<le> sz \<Longrightarrow> buf @ xs \<noteq> [] \<Longrightarrow> batch_groups sz buf xs = [buf @ xs]"
proof (induction xs arbitrary: buf)
  case Nil
  then show ?case by simp
next
  case (Cons x xs)
  show ?case
  proof (cases "int (length (buf @ [x])) = sz")
    case True
    with Cons.prems have "xs = []" by (cases xs) auto
    with True show ?thesis by simp
  next
    case False
    with Cons.IH [of "buf @ [x]"] Cons.prems show ?thesis by simp
  qed
qed

lemma batch_groups_length:
  "0 < n \<Longrightarrow> length buf < n \<Longrightarrow>
   length (batch_groups (int n) buf xs) = (length buf + length xs + n - 1) div n"
proof (induction xs arbitrary: buf)
  case Nil
  show ?case
  proof (cases "buf = []")
    case True
    with Nil show ?thesis by simp
  next
    case False
    then have "length buf + n - 1 = n + (length buf - 1)" by (cases buf) simp_all
    then have "(length buf + n - 1) div n = (n + (length buf - 1)) div n" by (simp only:)
    also have "\<dots> = (length buf - 1) div n + 1" using Nil.prems(1) by (simp only: div_add_self1)
    also have "\<dots> = 1" using Nil by simp
    finally show ?thesis using False by simp
  qed
next
  case (Cons x xs)
  show ?case
  proof (cases "int (length (buf @ [x])) = int n")
    case True
    then have n: "n = Suc (length buf)" by simp
    have "length (batch_groups (int n) buf (x # xs)) = Suc (length (batch_groups (int n) [] xs))"
      using True by simp
    also have "\<dots> = Suc ((length xs + n - 1) div n)" using Cons.IH [of "[]"] Cons.prems by simp
    also have "\<dots> = (n + (length xs + n - 1)) div n"
      using Cons.prems(1) by (simp only: div_add_self1 Suc_eq_plus1)
    also have "\<dots> = (length buf + length (x # xs) + n - 1) div n"
    proof -
      have "n + (length xs + n - 1) = length buf + length (x # xs) + n - 1"
        using n by simp
      then show ?thesis by (simp only:)
    qed
    finally show ?thesis .
  next
    case False
    then have "length (buf @ [x]) < n" using Cons.prems by simp
    with Cons.IH [of "buf @ [x]"] Cons.prems False show ?thesis by simp
  qed
qed

lemma batch_groups_sizes:
  "0 < n \<Longrightarrow> length buf < n \<Longrightarrow>
   (\<forall>g \<in> set (butlast (batch_groups (int n) buf xs)). length g = n)
   \<and> (batch_groups (int n) buf xs \<noteq> [] \<longrightarrow>
        0 < length (last (batch_groups (int n) buf xs)) \<and> length (last (batch_groups (int n) buf xs)) \<le> n)"
proof (induction xs arbitrary: buf)
  case Nil
  then show ?case by simp
next
  case (Cons x xs)
  show ?case
  proof (cases "int (length (buf @ [x])) = int n")
    case True
    then have n: "length (buf @ [x]) = n" by simp
    let ?gs = "batch_groups (int n) [] xs"
    have eq: "batch_groups (int n) buf (x # xs) = (buf @ [x]) # ?gs" using True by simp
    have ih: "(\<forall>g \<in> set (butlast ?gs). length g = n)
        \<and> (?gs \<noteq> [] \<longrightarrow> 0 < length (last ?gs) \<and> length (last ?gs) \<le> n)"
      using Cons.IH [of "[]"] Cons.prems by simp
    show ?thesis
    proof (cases "?gs = []")
      case True
      then show ?thesis unfolding eq using n Cons.prems by simp
    next
      case False
      then show ?thesis unfolding eq using n ih by simp
    qed
  next
    case False
    then have "length (buf @ [x]) < n" using Cons.prems by simp
    with Cons.IH [of "buf @ [x]"] Cons.prems False show ?thesis by simp
  qed
qed

lemma run_batch:
  assumes "length xs + 1 < fuel"
  shows "run fuel \<lparr>source_of = of_list xs, ops = [Batch sz]\<rparr> (Some result_append) [] =
     Some (Inr \<lparr>processed = int (length xs), emitted = int (length (batch_groups sz [] xs)),
                dropped = 0, batches = int (length (batch_groups sz [] xs)), errors = 0\<rparr>,
           map ListV (batch_groups sz [] xs))"
proof -
  let ?c = "\<lparr>stats = RunStats, pos = 0, world = []::item list\<rparr>"
  have a: "feeds (of_list xs) (pos ?c) xs" by (simp add: feeds_of_list)
  show ?thesis
    unfolding run_def using drain_batch [OF a assms, of sz "[]"]
    by (simp add: RunStats_def)
qed

lemma run_batch_nonpos:
  assumes "sz \<le> 0" and "length xs + 1 < fuel"
  shows "run fuel \<lparr>source_of = of_list xs, ops = [Batch sz]\<rparr> (Some result_append) [] =
     Some (Inr \<lparr>processed = int (length xs), emitted = (if xs = [] then 0 else 1),
                dropped = 0, batches = (if xs = [] then 0 else 1), errors = 0\<rparr>,
           if xs = [] then [] else [ListV xs])"
  unfolding run_batch [OF assms(2)] using batch_groups_nonpos [OF assms(1), of "[]" xs]
  by simp

text \<open>What \<^verbatim>\<open>_add_op\<close> changes: it allocates one list and one builder, and writes to
  nothing that existed before.\<close>

lemma add_op_frame:
  assumes "ops_ref self < length (list_objs h)" and "add_op self op h = (new, h1)"
  shows "source_ref new = source_ref self"
    and "sources h1 = sources h"
    and "list_objs h1 ! ops_ref new = list_objs h ! ops_ref self @ [op]"
    and "ops_ref new \<noteq> ops_ref self"
    and "ops_ref new < length (list_objs h1)"
    and "\<forall>r < length (list_objs h). list_objs h1 ! r = list_objs h ! r"
    and "contents h1 self = contents h self"
  using assms by (auto simp: add_op_def Pipe_def Let_def contents_def nth_append)

lemma ceil_div_nat:
  assumes "0 < n"
  shows "\<lceil>real N / real n\<rceil> = int ((N + n - 1) div n)"
proof (rule ceiling_unique)
  define q where "q = (N + n - 1) div n"
  define r where "r = (N + n - 1) mod n"
  have e: "N + n - 1 = q * n + r" by (simp add: q_def r_def)
  have r: "r < n" using assms by (simp add: r_def)
  have up: "N \<le> q * n" using e r assms by linarith
  have lo: "q * n < N + n" using e assms by linarith
  have "real N \<le> real (q * n)" using up by (simp only: of_nat_le_iff)
  then have "real N \<le> real q * real n" by simp
  then show "real N / real n \<le> of_int (int ((N + n - 1) div n))"
    unfolding q_def [symmetric] using assms by (simp add: pos_divide_le_eq)
  have "real (q * n) < real (N + n)" using lo by (simp only: of_nat_less_iff)
  then have "real q * real n - real n < real N" by simp
  then have "(real q - 1) * real n < real N" by (simp add: algebra_simps)
  then show "of_int (int ((N + n - 1) div n)) - 1 < real N / real n"
    unfolding q_def [symmetric] using assms by (simp add: pos_less_divide_eq)
qed

text \<open>
  Claim C6. For every positive \<open>size\<close> and every finite \<open>N\<close>-item source,
  \<^verbatim>\<open>batch(size)\<close> emits \<open>ceil(N / size) = (N + size - 1) div size\<close> groups, in input
  order: their concatenation is the input, every group but the last has \<open>size\<close> items, and
  the last has between 1 and \<open>size\<close>. The counter \<^verbatim>\<open>batches\<close> equals the number of
  groups. No item gives no group, and \<open>0 < N \<le> size\<close> gives the one group of all items.
  The run ends with any fuel above \<open>N + 1\<close>.
\<close>

theorem batch_partitions:
  fixes n :: nat
  defines "gs \<equiv> batch_groups (int n) []"
  assumes "0 < n" and "length xs + 1 < fuel"
  shows "run fuel \<lparr>source_of = of_list xs, ops = [Batch (int n)]\<rparr> (Some result_append) [] =
           Some (Inr \<lparr>processed = int (length xs), emitted = int (length (gs xs)),
                      dropped = 0, batches = int (length (gs xs)), errors = 0\<rparr>,
                 map ListV (gs xs))
       \<and> concat (gs xs) = xs
       \<and> length (gs xs) = (length xs + n - 1) div n
       \<and> int (length (gs xs)) = \<lceil>real (length xs) / real n\<rceil>
       \<and> (\<forall>g \<in> set (butlast (gs xs)). length g = n)
       \<and> (gs xs \<noteq> [] \<longrightarrow> 0 < length (last (gs xs)) \<and> length (last (gs xs)) \<le> n)
       \<and> (xs = [] \<longrightarrow> gs xs = [])
       \<and> (xs \<noteq> [] \<and> length xs \<le> n \<longrightarrow> gs xs = [xs])"
proof -
  have 1: "concat (gs xs) = xs" by (simp add: gs_def batch_groups_concat)
  have 2: "length (gs xs) = (length xs + n - 1) div n"
    using batch_groups_length [of n "[]" xs] assms(2) by (simp add: gs_def)
  have ceil: "int (length (gs xs)) = \<lceil>real (length xs) / real n\<rceil>"
    using 2 ceil_div_nat [OF assms(2), of "length xs"] by simp
  have 3: "(\<forall>g \<in> set (butlast (gs xs)). length g = n)
       \<and> (gs xs \<noteq> [] \<longrightarrow> 0 < length (last (gs xs)) \<and> length (last (gs xs)) \<le> n)"
    using batch_groups_sizes [of n "[]" xs] assms(2) by (simp add: gs_def)
  have 4: "xs = [] \<longrightarrow> gs xs = []" by (simp add: gs_def)
  have 5: "xs \<noteq> [] \<and> length xs \<le> n \<longrightarrow> gs xs = [xs]"
    using batch_groups_single [of "[]" xs "int n"] by (simp add: gs_def)
  show ?thesis
    unfolding run_batch [OF assms(3)] gs_def [symmetric] using 1 2 ceil 3 4 5 by blast
qed

theorem batch_partitions_witness:
  "(0::nat) < 3 \<and> length [IntV 0, IntV 1, IntV 2, IntV 3, IntV 4, IntV 5, IntV 6] + 1 < 10
   \<and> run 10 \<lparr>source_of = of_list [IntV 0, IntV 1, IntV 2, IntV 3, IntV 4, IntV 5, IntV 6],
              ops = [Batch 3]\<rparr> (Some result_append) [] =
       Some (Inr \<lparr>processed = 7, emitted = 3, dropped = 0, batches = 3, errors = 0\<rparr>,
             [ListV [IntV 0, IntV 1, IntV 2], ListV [IntV 3, IntV 4, IntV 5], ListV [IntV 6]])"
proof -
  have h1: "(0::nat) < 3" by simp
  have h2: "length [IntV 0, IntV 1, IntV 2, IntV 3, IntV 4, IntV 5, IntV 6] + 1 < 10" by simp
  from batch_partitions [OF h1 h2] show ?thesis by simp
qed

text \<open>
  Claim C10. \<^verbatim>\<open>batch(size)\<close> with \<open>size \<le> 0\<close> raises nothing: the builder method makes
  the operator with no check; in the loop the buffer, never empty after the append, never
  has \<open>size\<close> items, so the loop body yields nothing and goes on; and at the end of the
  input a non-empty input is emitted as one group with \<^verbatim>\<open>batches = 1\<close>, an empty one as
  no group with \<^verbatim>\<open>batches = 0\<close>.
\<close>

theorem batch_nonpositive_single_group:
  assumes "sz \<le> 0" and "length xs + 1 < fuel"
  shows "run fuel \<lparr>source_of = of_list xs, ops = [Batch sz]\<rparr> (Some result_append) [] =
           Some (Inr \<lparr>processed = int (length xs), emitted = (if xs = [] then 0 else 1),
                      dropped = 0, batches = (if xs = [] then 0 else 1), errors = 0\<rparr>,
                 if xs = [] then [] else [ListV xs])
       \<and> on_item (G_batch sz buf) x c = Loop (G_batch sz (buf @ [x])) c
       \<and> (case batch sz self h of (p, h1) \<Rightarrow>
            list_objs h1 ! ops_ref p = list_objs h ! ops_ref self @ [Batch sz])"
  using run_batch_nonpos [OF assms] assms(1)
  by (simp add: batch_def add_op_def Pipe_def Let_def)

theorem batch_nonpositive_single_group_witness:
  "(-1::int) \<le> 0 \<and> length [IntV 4, IntV 5] + 1 < 4
   \<and> run 4 \<lparr>source_of = of_list [IntV 4, IntV 5], ops = [Batch (-1)]\<rparr> (Some result_append) [] =
       Some (Inr \<lparr>processed = 2, emitted = 1, dropped = 0, batches = 1, errors = 0\<rparr>,
             [ListV [IntV 4, IntV 5]])"
proof -
  have h1: "(-1::int) \<le> 0" by simp
  have h2: "length [IntV 4, IntV 5] + 1 < 4" by simp
  from batch_nonpositive_single_group [OF h1 h2, THEN conjunct1] show ?thesis by simp
qed

text \<open>
  Claim C3 as stated fails: a pipeline built with \<^verbatim>\<open>batch(0)\<close> over \<^verbatim>\<open>[1, 2, 3]\<close> runs to
  the end and delivers the group \<^verbatim>\<open>[1, 2, 3]\<close> to the sink.
\<close>

theorem batch_zero_produces_output:
  "run 5 \<lparr>source_of = of_list [IntV 1, IntV 2, IntV 3], ops = [Batch 0]\<rparr> (Some result_append) [] =
     Some (Inr \<lparr>processed = 3, emitted = 1, dropped = 0, batches = 1, errors = 0\<rparr>,
           [ListV [IntV 1, IntV 2, IntV 3]])"
  using run_batch_nonpos [of 0 "[IntV 1, IntV 2, IntV 3]" 5] by simp

text \<open>
  Claim C3, as the code has it. A non-positive batch size is not rejected, neither when the
  builder is made nor when it is first run: \<^verbatim>\<open>batch(size)\<close> with \<open>size \<le> 0\<close> on a
  builder with no operator returns a builder holding that operator, and running it over a
  finite source returns statistics and delivers the whole non-empty input as one group.
\<close>

theorem batch_nonpositive_not_rejected:
  assumes "sz \<le> 0"
    and "ops_ref self < length (list_objs h)" and "list_objs h ! ops_ref self = []"
    and "sources h ! source_ref self = of_list xs"
    and "length xs + 1 < fuel"
  shows "case batch sz self h of (p, h1) \<Rightarrow>
           contents h1 p = \<lparr>source_of = of_list xs, ops = [Batch sz]\<rparr>
           \<and> run_obj fuel h1 p (Some result_append) [] =
               Some (Inr \<lparr>processed = int (length xs), emitted = (if xs = [] then 0 else 1),
                          dropped = 0, batches = (if xs = [] then 0 else 1), errors = 0\<rparr>,
                     if xs = [] then [] else [ListV xs])"
proof -
  obtain p h1 where b: "add_op self (Batch sz) h = (p, h1)" by (cases "add_op self (Batch sz) h")
  have c: "contents h1 p = \<lparr>source_of = of_list xs, ops = [Batch sz]\<rparr>"
    using add_op_frame(1-3) [OF assms(2) b] assms(3,4) by (simp add: contents_def)
  show ?thesis
    using b c run_batch_nonpos [OF assms(1,5)] by (simp add: batch_def run_obj_def)
qed

theorem batch_nonpositive_not_rejected_witness:
  "case batch (-2) \<lparr>source_ref = 0, ops_ref = 0\<rparr>
          \<lparr>sources = [of_list [IntV 1, IntV 2]], list_objs = [Nil]\<rparr> of
     (p, h1) \<Rightarrow>
       contents h1 p = \<lparr>source_of = of_list [IntV 1, IntV 2], ops = [Batch (-2)]\<rparr>
       \<and> run_obj 5 h1 p (Some result_append) [] =
           Some (Inr \<lparr>processed = 2, emitted = 1, dropped = 0, batches = 1, errors = 0\<rparr>,
                 [ListV [IntV 1, IntV 2]])"
proof -
  let ?h = "\<lparr>sources = [of_list [IntV 1, IntV 2]], list_objs = [Nil]\<rparr> :: (item list) heap"
  let ?self = "\<lparr>source_ref = 0, ops_ref = 0\<rparr>"
  have h1: "(-2::int) \<le> 0" by simp
  have h2: "ops_ref ?self < length (list_objs ?h)" by simp
  have h3: "list_objs ?h ! ops_ref ?self = []" by simp
  have h4: "sources ?h ! source_ref ?self = of_list [IntV 1, IntV 2]" by simp
  have h5: "length [IntV 1, IntV 2] + 1 < 5" by simp
  from batch_nonpositive_not_rejected [OF h1 h2 h3 h4 h5] show ?thesis by simp
qed

section \<open>The builder methods\<close>

lemma add_op_appended:
  assumes "ops_ref self < length (list_objs h)"
  shows "appended h self op (add_op self op h)"
proof -
  obtain new h1 where a: "add_op self op h = (new, h1)" by (cases "add_op self op h")
  note f = add_op_frame [OF assms a]
  have "\<forall>fuel sink w. run_obj fuel h1 self sink w = run_obj fuel h self sink w"
    by (simp add: run_obj_def f(7))
  with f show ?thesis unfolding appended_def a by simp
qed

text \<open>
  Claim C8. Each of the ten builder methods, called on a builder \<open>self\<close> of the heap,
  returns a new builder that points to the same source and to a new list: the list of
  \<open>self\<close> with exactly the method's operator appended. Every list and every source that
  existed is unchanged, so \<open>self\<close> still points to its own operators and runs as before.
  (\<^verbatim>\<open>rate_limit\<close> does so for a rate other than zero; a zero rate raises
  \<^verbatim>\<open>ZeroDivisionError\<close> before any builder is made.)
\<close>

theorem builder_methods_append:
  assumes "ops_ref self < length (list_objs h)"
  shows "appended h self (Map_op fn) (map_pipe fn self h)
       \<and> appended h self (Flat_map fn) (flat_map fn self h)
       \<and> appended h self (Filter_op fn) (filter_pipe fn self h)
       \<and> appended h self (Tap fn) (tap fn self h)
       \<and> appended h self (Batch sz) (batch sz self h)
       \<and> (rate \<noteq> 0 \<longrightarrow>
            (\<exists>r. rate_limit rate per self h = Inr r \<and> appended h self (Rate_limit (per / rate)) r))
       \<and> appended h self (Dedupe key max_size) (dedupe key max_size self h)
       \<and> appended h self (Retry_map fn retries backoff exceptions)
            (retry_map fn retries backoff exceptions self h)
       \<and> appended h self (Take_op n) (take_pipe n self h)
       \<and> appended h self (Catch fn on_error exceptions) (catch fn on_error exceptions self h)"
  using add_op_appended [OF assms]
  by (simp add: map_pipe_def flat_map_def filter_pipe_def tap_def batch_def rate_limit_def
      dedupe_def retry_map_def take_pipe_def catch_def)

theorem builder_methods_append_witness:
  "case take_pipe 2 \<lparr>source_ref = 0, ops_ref = 0\<rparr>
          \<lparr>sources = [of_list [IntV 1, IntV 2, IntV 3]], list_objs = [Batch 2 :: unit op] # Nil\<rparr> of
     (new, h1) \<Rightarrow>
       source_ref new = 0 \<and> ops_ref new = 1
       \<and> sources h1 = [of_list [IntV 1, IntV 2, IntV 3]]
       \<and> list_objs h1 = [Batch 2] # [Batch 2, Take_op 2] # Nil"
proof -
  let ?h = "\<lparr>sources = [of_list [IntV 1, IntV 2, IntV 3]], list_objs = [Batch 2 :: unit op] # Nil\<rparr>"
  let ?self = "\<lparr>source_ref = 0, ops_ref = 0\<rparr>"
  have h1: "ops_ref ?self < length (list_objs ?h)" by simp
  have "appended ?h ?self (Take_op 2) (take_pipe 2 ?self ?h)"
    using builder_methods_append [OF h1] by blast
  then show ?thesis
    by (simp add: appended_def take_pipe_def add_op_def Pipe_def split: prod.splits)
qed

section \<open>dedupe\<close>

lemma feed_dedupe_Cons:
  assumes "key_is key kf" and "hashable (kf x)"
  shows "feed_list (G_dedupe key max_size seen) (x # xs) c =
     (if kf x \<notin> set seen
      then (Yield x, G_dedupe key max_size (evict max_size (seen @ [kf x])), xs,
            add_processed (c\<lparr>pos := Suc (pos c)\<rparr>))
      else feed_list (G_dedupe key max_size seen) xs
            (add_dropped (add_processed (c\<lparr>pos := Suc (pos c)\<rparr>))))"
  using assms
  by (cases key) (auto simp: key_is_def pure_call_def call_def evict_def Let_def ctx_defs)

lemma drain_dedupe:
  "feeds src (pos c) xs \<Longrightarrow> key_is key kf \<Longrightarrow> \<forall>x \<in> set xs. hashable (kf x) \<Longrightarrow>
   length xs < fuel \<Longrightarrow>
   drain src (Some result_append) fuel [G_dedupe key max_size seen] c =
     Some (Inr ((stats c)\<lparr>processed := processed (stats c) + int (length xs),
                  emitted := emitted (stats c) + int (length (dedupe_keep kf max_size seen xs)),
                  dropped := dropped (stats c) + int (length xs)
                               - int (length (dedupe_keep kf max_size seen xs))\<rparr>),
           world c @ dedupe_keep kf max_size seen xs)"
proof (induction xs arbitrary: seen c fuel)
  case Nil
  then obtain k where k: "fuel = Suc k" by (cases fuel) auto
  have p: "pull src fuel [G_dedupe key max_size seen] c =
      Some (case feed_list (G_dedupe key max_size seen) [] c of (s, g1, rest, c1) \<Rightarrow> (s, [g1], c1))"
    by (rule pull_single) (use Nil in auto)
  show ?case using p unfolding k by (simp add: drain.simps)
next
  case (Cons x xs)
  then obtain k where k: "fuel = Suc k" by (cases fuel) auto
  from Cons.prems have x: "src (pos c) = Some x" and f: "feeds src (Suc (pos c)) xs"
    by (auto dest: feeds_Cons)
  from Cons.prems have hx: "hashable (kf x)" and hxs: "\<forall>x \<in> set xs. hashable (kf x)" by simp_all
  let ?c1 = "add_processed (c\<lparr>pos := Suc (pos c)\<rparr>)"
  have p: "pull src (Suc k) [G_dedupe key max_size seen] c =
      Some (case feed_list (G_dedupe key max_size seen) (x # xs) c of
              (s, g1, rest, c1) \<Rightarrow> (s, [g1], c1))"
    by (rule pull_single) (use Cons.prems k in auto)
  note fd = feed_dedupe_Cons [OF Cons.prems(2) hx, of max_size seen xs c]
  show ?case
  proof (cases "kf x \<notin> set seen")
    case True
    let ?c2 = "(add_emitted ?c1)\<lparr>world := world c @ [x]\<rparr>"
    have step: "drain src (Some result_append) fuel [G_dedupe key max_size seen] c =
        drain src (Some result_append) k
          [G_dedupe key max_size (evict max_size (seen @ [kf x]))] ?c2"
      using p True unfolding k fd
      by (simp add: drain.simps(2) [where k = k] call_def result_append_def ctx_defs)
    have a: "feeds src (pos ?c2) xs" using f by (simp add: ctx_defs)
    have b: "length xs < k" using Cons.prems k by simp
    show ?thesis
      unfolding step Cons.IH [OF a Cons.prems(2) hxs b] using True by (simp add: ctx_defs)
  next
    case False
    let ?c2 = "add_dropped ?c1"
    have a: "feeds src (pos ?c2) xs" using f by (simp add: ctx_defs)
    have b: "length xs < Suc k" using Cons.prems k by simp
    have "pull src (Suc k) [G_dedupe key max_size seen] c =
        pull src (Suc k) [G_dedupe key max_size seen] ?c2"
      unfolding p pull_single [OF a b] fd using False by simp
    then have step: "drain src (Some result_append) fuel [G_dedupe key max_size seen] c =
        drain src (Some result_append) (Suc k) [G_dedupe key max_size seen] ?c2"
      unfolding k by (rule drain_cong_pull)
    show ?thesis
      unfolding step Cons.IH [OF a Cons.prems(2) hxs b] using False by (simp add: ctx_defs)
  qed
qed

lemma idx_filter_Cons:
  "map (\<lambda>i. (x # xs) ! i) (filter P [0..<Suc (length xs)]) =
     (if P 0 then [x] else []) @ map (\<lambda>i. xs ! i) (filter (\<lambda>i. P (Suc i)) [0..<length xs])"
proof -
  have upt: "[0..<Suc (length xs)] = 0 # map Suc [0..<length xs]"
    by (simp add: upt_conv_Cons map_Suc_upt del: upt_Suc)
  show ?thesis unfolding upt by (simp add: filter_map comp_def)
qed

lemma dedupe_keep_unbounded:
  "dedupe_keep kf None seen xs =
     map (\<lambda>i. xs ! i) (filter (\<lambda>i. kf (xs ! i) \<notin> set seen \<union> kf ` set (take i xs)) [0..<length xs])"
proof (induction xs arbitrary: seen)
  case Nil
  then show ?case by simp
next
  case (Cons x xs)
  define P where "P = (\<lambda>i. kf ((x # xs) ! i) \<notin> set seen \<union> kf ` set (take i (x # xs)))"
  have rhs: "map (\<lambda>i. (x # xs) ! i) (filter P [0..<length (x # xs)]) =
      (if P 0 then [x] else []) @ map (\<lambda>i. xs ! i) (filter (\<lambda>i. P (Suc i)) [0..<length xs])"
    by (simp only: idx_filter_Cons length_Cons)
  have P0: "P 0 = (kf x \<notin> set seen)" by (simp add: P_def)
  have "dedupe_keep kf None seen (x # xs) = map (\<lambda>i. (x # xs) ! i) (filter P [0..<length (x # xs)])"
  proof (cases "kf x \<in> set seen")
    case True
    have PS: "(\<lambda>i. P (Suc i)) = (\<lambda>i. kf (xs ! i) \<notin> set seen \<union> kf ` set (take i xs))"
      unfolding P_def using True by (intro ext) auto
    show ?thesis unfolding rhs P0 PS using True Cons.IH [of seen] by simp
  next
    case False
    have PS: "(\<lambda>i. P (Suc i)) = (\<lambda>i. kf (xs ! i) \<notin> set (seen @ [kf x]) \<union> kf ` set (take i xs))"
      unfolding P_def by (intro ext) auto
    show ?thesis unfolding rhs P0 PS using False Cons.IH [of "seen @ [kf x]"]
      by (simp add: evict_def)
  qed
  then show ?case unfolding P_def .
qed

lemma dedupe_keep_first_occurrences:
  "dedupe_keep kf None [] xs = first_occurrences kf xs"
  by (simp add: dedupe_keep_unbounded first_occurrences_def)

lemma tl_drop_snoc: "a \<le> length ys \<Longrightarrow> tl (drop a ys @ [k]) = drop (Suc a) (ys @ [k])"
proof -
  assume a: "a \<le> length ys"
  have "drop (Suc a) (ys @ [k]) = tl (drop a (ys @ [k]))" by (simp only: drop_Suc tl_drop)
  also have "drop a (ys @ [k]) = drop a ys @ [k]" using a by simp
  finally show ?thesis by simp
qed

lemma evict_window:
  assumes "seen = drop (length ys - nat m) ys"
  shows "evict (Some m) (seen @ [k]) = drop (length (ys @ [k]) - nat m) (ys @ [k])"
proof (cases "length ys < nat m")
  case True
  then show ?thesis using assms by (auto simp: evict_def)
next
  case False
  then have l: "length seen = nat m" using assms by simp
  have gt: "int (length (seen @ [k])) > m" using l by simp
  have "tl (seen @ [k]) = drop (Suc (length ys - nat m)) (ys @ [k])"
    unfolding assms by (rule tl_drop_snoc) simp
  also have "Suc (length ys - nat m) = length (ys @ [k]) - nat m" using False by simp
  finally show ?thesis using gt by (simp add: evict_def)
qed

lemma dedupe_keep_window:
  "seen = drop (length acc - nat m) (map kf acc) \<Longrightarrow>
   dedupe_keep kf (Some m) seen xs = window_dedupe kf (nat m) acc xs"
proof (induction xs arbitrary: seen acc)
  case Nil
  then show ?case by simp
next
  case (Cons x xs)
  show ?case
  proof (cases "kf x \<in> set seen")
    case True
    with Cons.IH [OF Cons.prems] Cons.prems show ?thesis by simp
  next
    case False
    have "seen = drop (length (map kf acc) - nat m) (map kf acc)" using Cons.prems by simp
    from evict_window [OF this, of "kf x"]
    have "evict (Some m) (seen @ [kf x]) = drop (length (acc @ [x]) - nat m) (map kf (acc @ [x]))"
      by simp
    from Cons.IH [OF this] False Cons.prems show ?thesis by simp
  qed
qed

lemma run_dedupe:
  assumes "key_is key kf" and "\<forall>x \<in> set xs. hashable (kf x)" and "length xs < fuel"
  shows "run fuel \<lparr>source_of = of_list xs, ops = [Dedupe key max_size]\<rparr> (Some result_append) [] =
     Some (Inr \<lparr>processed = int (length xs),
                emitted = int (length (dedupe_keep kf max_size [] xs)),
                dropped = int (length xs) - int (length (dedupe_keep kf max_size [] xs)),
                batches = 0, errors = 0\<rparr>,
           dedupe_keep kf max_size [] xs)"
proof -
  let ?c = "\<lparr>stats = RunStats, pos = 0, world = []::item list\<rparr>"
  have a: "feeds (of_list xs) (pos ?c) xs" by (simp add: feeds_of_list)
  show ?thesis
    unfolding run_def using drain_dedupe [OF a assms, of max_size "[]"]
    by (simp add: RunStats_def)
qed

text \<open>
  Claim C4. Over a finite source, with a key that raises nothing and gives hashable values
  (or no key: the item itself), \<^verbatim>\<open>dedupe\<close> with no \<^verbatim>\<open>max_size\<close> emits exactly the items
  whose key no earlier item has, in input order, and \<^verbatim>\<open>dropped\<close> counts the others, one
  for each. With \<^verbatim>\<open>max_size = k\<close> the oldest key is evicted once more than \<open>k\<close> are held, so
  an item is suppressed exactly when its key is among those of the \<open>k\<close> items emitted last,
  and a key that left this window is emitted again. The two runs of the specification:
  \<^verbatim>\<open>[3,1,2,1,3]\<close> gives \<^verbatim>\<open>[3,1,2]\<close> with \<^verbatim>\<open>dropped = 2\<close>, and \<^verbatim>\<open>[1,2,3,1]\<close> with
  \<^verbatim>\<open>max_size = 2\<close> gives \<^verbatim>\<open>[1,2,3,1]\<close>.
\<close>

theorem dedupe_first_occurrences:
  assumes "key_is key kf" and "\<forall>x \<in> set xs. hashable (kf x)" and "length xs < fuel"
  shows "run fuel \<lparr>source_of = of_list xs, ops = [Dedupe key None]\<rparr> (Some result_append) [] =
           Some (Inr \<lparr>processed = int (length xs),
                      emitted = int (length (first_occurrences kf xs)),
                      dropped = int (length xs) - int (length (first_occurrences kf xs)),
                      batches = 0, errors = 0\<rparr>,
                 first_occurrences kf xs)
       \<and> run fuel \<lparr>source_of = of_list xs, ops = [Dedupe key (Some k)]\<rparr> (Some result_append) [] =
           Some (Inr \<lparr>processed = int (length xs),
                      emitted = int (length (window_dedupe kf (nat k) [] xs)),
                      dropped = int (length xs) - int (length (window_dedupe kf (nat k) [] xs)),
                      batches = 0, errors = 0\<rparr>,
                 window_dedupe kf (nat k) [] xs)
       \<and> run 6 \<lparr>source_of = of_list [IntV 3, IntV 1, IntV 2, IntV 1, IntV 3],
                 ops = [Dedupe None None]\<rparr> (Some result_append) [] =
           Some (Inr \<lparr>processed = 5, emitted = 3, dropped = 2, batches = 0, errors = 0\<rparr>,
                 [IntV 3, IntV 1, IntV 2])
       \<and> run 5 \<lparr>source_of = of_list [IntV 1, IntV 2, IntV 3, IntV 1],
                 ops = [Dedupe None (Some 2)]\<rparr> (Some result_append) [] =
           Some (Inr \<lparr>processed = 4, emitted = 4, dropped = 0, batches = 0, errors = 0\<rparr>,
                 [IntV 1, IntV 2, IntV 3, IntV 1])"
proof -
  have w: "dedupe_keep kf (Some k) [] xs = window_dedupe kf (nat k) [] xs"
    by (rule dedupe_keep_window) simp
  have id: "key_is None (\<lambda>x. x)" by (simp add: key_is_def)
  have e1: "run 6 \<lparr>source_of = of_list [IntV 3, IntV 1, IntV 2, IntV 1, IntV 3],
                 ops = [Dedupe None None]\<rparr> (Some result_append) [] =
           Some (Inr \<lparr>processed = 5, emitted = 3, dropped = 2, batches = 0, errors = 0\<rparr>,
                 [IntV 3, IntV 1, IntV 2])"
    by (subst run_dedupe [OF id]) (simp_all add: evict_def)
  have e2: "run 5 \<lparr>source_of = of_list [IntV 1, IntV 2, IntV 3, IntV 1],
                 ops = [Dedupe None (Some 2)]\<rparr> (Some result_append) [] =
           Some (Inr \<lparr>processed = 4, emitted = 4, dropped = 0, batches = 0, errors = 0\<rparr>,
                 [IntV 1, IntV 2, IntV 3, IntV 1])"
    by (subst run_dedupe [OF id]) (simp_all add: evict_def)
  show ?thesis
    using run_dedupe [OF assms, of None] run_dedupe [OF assms, of "Some k"] e1 e2
    by (simp only: dedupe_keep_first_occurrences w simp_thms)
qed

theorem dedupe_first_occurrences_witness:
  "length [IntV 1, IntV 2, IntV 1, IntV 3, IntV 2] < 6
   \<and> run 6 \<lparr>source_of = of_list [IntV 1, IntV 2, IntV 1, IntV 3, IntV 2],
             ops = [Dedupe None None]\<rparr> (Some result_append) [] =
       Some (Inr \<lparr>processed = 5, emitted = 3, dropped = 2, batches = 0, errors = 0\<rparr>,
             [IntV 1, IntV 2, IntV 3])
   \<and> run 6 \<lparr>source_of = of_list [IntV 1, IntV 2, IntV 1, IntV 3, IntV 2],
             ops = [Dedupe None (Some 1)]\<rparr> (Some result_append) [] =
       Some (Inr \<lparr>processed = 5, emitted = 5, dropped = 0, batches = 0, errors = 0\<rparr>,
             [IntV 1, IntV 2, IntV 1, IntV 3, IntV 2])"
proof -
  let ?xs = "[IntV 1, IntV 2, IntV 1, IntV 3, IntV 2]"
  have h1: "key_is None (\<lambda>x. x)" by (simp add: key_is_def)
  have h2: "\<forall>x \<in> set ?xs. hashable ((\<lambda>x. x) x)" by simp
  have h3: "length ?xs < 6" by simp
  have fo: "first_occurrences (\<lambda>x. x) ?xs = [IntV 1, IntV 2, IntV 3]"
    by (simp add: first_occurrences_def upt_rec)
  from dedupe_first_occurrences [OF h1 h2 h3, of 1] h3 show ?thesis
    by (simp add: fo)
qed

section \<open>retry-map\<close>


lemma leave_Raise: "leave (Raise e) = Raise (if e = StopIteration then RuntimeError else e)"
  by (cases e) simp_all
























section \<open>Items emitted and items processed\<close>

lemma credit_nonneg: "0 \<le> credit g"
  by (cases g) simp_all

lemma credits_nonneg: "0 \<le> credits gs"
  by (induction gs) (simp_all add: credits_def credit_nonneg)

lemma credits_Cons: "credits (g # gs) = credit g + credits gs"
  by (simp add: credits_def)

lemma credits_tl: "credits (tl gs) \<le> credits gs"
  by (cases gs) (simp_all add: credits_Cons credit_nonneg credits_def)

lemma list_all_tl: "list_all P gs \<Longrightarrow> list_all P (tl gs)"
  by (cases gs) simp_all

lemma yields_nonneg: "0 \<le> yields s"
  by (simp add: yields_def split: signal.splits)

lemma call_stats: "call fn x c = (r, c1) \<Longrightarrow> stats c1 = stats c"
  by (auto simp: call_def split: prod.splits)

lemma call2_stats: "call2 fn x e c = (r, c1) \<Longrightarrow> stats c1 = stats c"
  by (auto simp: call2_def split: prod.splits)

lemma attempts_counters:
  "attempts fn exceptions x n last_exc c = (r, lx, c1) \<Longrightarrow>
   processed (stats c1) = processed (stats c) \<and> emitted (stats c1) = emitted (stats c)"
proof (induction n arbitrary: last_exc c)
  case 0
  then show ?case by (auto split: option.splits)
next
  case (Suc n)
  obtain r0 c0 where f: "call fn x c = (r0, c0)" by (cases "call fn x c")
  then have s: "stats c0 = stats c" by (rule call_stats)
  show ?case
  proof (cases r0)
    case (Inl e)
    show ?thesis
    proof (cases "exceptions e")
      case True
      with Suc.prems f Inl have "attempts fn exceptions x n (Some e) (add_errors c0) = (r, lx, c1)"
        by simp
      from Suc.IH [OF this] s show ?thesis by (simp add: ctx_defs)
    next
      case False
      with Suc.prems f Inl s show ?thesis by auto
    qed
  next
    case (Inr y)
    with Suc.prems f s show ?thesis by auto
  qed
qed

lemma on_item_credit:
  assumes "\<not> gen_flat_map g"
  shows "case on_item g x c of
           Out y g1 c1 \<Rightarrow> \<not> gen_flat_map g1 \<and> credit g1 \<le> credit g \<and> same_counts c c1
         | Halt s g1 c1 \<Rightarrow>
             \<not> (\<exists>y. s = Yield y) \<and> \<not> gen_flat_map g1 \<and> credit g1 = 0 \<and> same_counts c c1
         | Loop g1 c1 \<Rightarrow> \<not> gen_flat_map g1 \<and> credit g1 \<le> credit g + 1 \<and> same_counts c c1"
proof (cases g)
  case (G_retry_map fn retries backoff exceptions at_yield)
  obtain r lx c1 where a: "attempts fn exceptions x (nat (retries + 1)) None c = (r, lx, c1)"
    by (cases "attempts fn exceptions x (nat (retries + 1)) None c")
  from attempts_counters [OF a] show ?thesis
    by (cases r) (auto simp add: G_retry_map a same_counts_def simp del: attempts.simps)
qed (use assms in \<open>auto simp: same_counts_def ctx_defs Let_def call_def call2_def
        split: prod.splits sum.splits if_splits option.splits\<close>)

lemma on_stop_credit:
  "case on_stop g c of
     Out y g1 c1 \<Rightarrow> \<not> gen_flat_map g1 \<and> credit g1 + 1 \<le> credit g \<and> same_counts c c1
   | Halt s g1 c1 \<Rightarrow>
       \<not> (\<exists>y. s = Yield y) \<and> \<not> gen_flat_map g1 \<and> credit g1 = 0 \<and> same_counts c c1
   | Loop g1 c1 \<Rightarrow> False"
  by (cases g) (auto simp: same_counts_def ctx_defs)

lemma on_close_credit:
  "case on_close g c of
     Released c1 \<Rightarrow> same_counts c c1
   | Held c1 \<Rightarrow> same_counts c c1
   | Again g1 c1 \<Rightarrow> \<not> gen_flat_map g1 \<and> credit g1 = 0 \<and> same_counts c c1"
proof (cases g)
  case (G_retry_map fn retries backoff exceptions at_yield)
  show ?thesis
  proof (cases at_yield)
    case None
    then show ?thesis by (simp add: G_retry_map same_counts_def)
  next
    case (Some a)
    obtain x left lx where a: "a = (x, left, lx)" by (cases a)
    obtain r lx1 c1 where b:
      "attempts fn exceptions x left (Some GeneratorExit) (add_errors c) = (r, lx1, c1)"
      by (cases "attempts fn exceptions x left (Some GeneratorExit) (add_errors c)")
    from attempts_counters [OF b]
    have "processed (stats c1) = processed (stats c) \<and> emitted (stats c1) = emitted (stats c)"
      by (simp add: ctx_defs)
    then show ?thesis
      by (simp add: G_retry_map Some a b same_counts_def del: attempts.simps)
  qed
next
  case (G_catch fn on_error exceptions at_yield)
  show ?thesis
  proof (cases at_yield)
    case None
    then show ?thesis by (simp add: G_catch same_counts_def)
  next
    case (Some x)
    obtain r c1 where b: "call2 on_error x GeneratorExit c = (r, c1)"
      by (cases "call2 on_error x GeneratorExit c")
    from call2_stats [OF b] show ?thesis
      by (cases r) (simp_all add: G_catch Some b same_counts_def ctx_defs)
  qed
qed (simp_all add: same_counts_def)

lemma resume_no_flat_map:
  "\<not> gen_flat_map g \<Longrightarrow> resume g = Some (s, g1) \<Longrightarrow> s = Stop \<and> g1 = g"
  by (cases g) auto

lemma pull_credit:
  "list_all (\<lambda>g. \<not> gen_flat_map g) gs \<Longrightarrow> pull src fuel gs c = Some (s, gs1, c1) \<Longrightarrow>
   list_all (\<lambda>g. \<not> gen_flat_map g) gs1 \<and> emitted (stats c1) = emitted (stats c)
   \<and> processed (stats c) + credits gs1 + yields s \<le> processed (stats c1) + credits gs"
  and close_credit:
  "list_all (\<lambda>g. \<not> gen_flat_map g) gs \<Longrightarrow> close src fuel gs c = Some (gs2, c2) \<Longrightarrow>
   list_all (\<lambda>g. \<not> gen_flat_map g) gs2 \<and> emitted (stats c2) = emitted (stats c)
   \<and> processed (stats c) + credits gs2 \<le> processed (stats c2) + credits gs"
proof (induction src fuel gs c and src fuel gs c arbitrary: s gs1 c1 and gs2 c2 rule: pull_close.induct)
  case (1 src fuel c)
  then show ?case
    by (auto simp: pull.simps source_next_def credits_def yields_def same_counts_def ctx_defs
        split: option.splits)
next
  case (2 src g gs c)
  then show ?case by (simp add: pull.simps)
next
  case (3 src k g gs c)
  from "3.prems"(1) have okg: "\<not> gen_flat_map g" and okgs: "list_all (\<lambda>g. \<not> gen_flat_map g) gs"
    by simp_all
  note cg = credit_nonneg [of g]
  show ?case
  proof (cases "resume g")
    case (Some a)
    obtain s0 g0 where a: "a = (s0, g0)" by (cases a)
    from resume_no_flat_map [OF okg Some [unfolded a]] have "s0 = Stop" "g0 = g" by simp_all
    with "3.prems"(2) Some a have "s = Stop" "gs1 = g # gs" "c1 = c"
      by (simp_all add: pull.simps)
    then show ?thesis using okgs okg by (simp add: credits_Cons yields_def same_counts_def)
  next
    case None
    show ?thesis
    proof (cases "pull src (Suc k) gs c")
      case None': None
      with "3.prems"(2) None show ?thesis by (simp add: pull.simps)
    next
      case (Some r)
      obtain s' gs' c' where r: "r = (s', gs', c')" by (cases r)
      from "3.IH"(1) [OF None okgs Some [unfolded r]]
      have ih: "list_all (\<lambda>g. \<not> gen_flat_map g) gs'"
        "emitted (stats c') = emitted (stats c)"
        "processed (stats c) + credits gs' + yields s' \<le> processed (stats c') + credits gs"
        by (simp_all add: same_counts_def)
      show ?thesis
      proof (cases s')
        case (Raise e)
        with "3.prems"(2) None Some r have "s = Raise e" "gs1 = Failed # gs'" "c1 = c'"
          by (simp_all add: pull.simps)
        then show ?thesis using ih cg Raise
          by (simp add: credits_Cons yields_def same_counts_def)
      next
        case Stop
        note st = on_stop_credit [where g = g and c = c']
        show ?thesis
        proof (cases "on_stop g c'")
          case (Out y g1 c2)
          with "3.prems"(2) None Some r Stop have "s = Yield y" "gs1 = g1 # gs'" "c1 = c2"
            by (simp_all add: pull.simps)
          then show ?thesis using ih st Out Stop
            by (simp add: credits_Cons yields_def same_counts_def)
        next
          case (Halt s2 g1 c2)
          with "3.prems"(2) None Some r Stop have "s = leave s2" "gs1 = g1 # gs'" "c1 = c2"
            by (simp_all add: pull.simps)
          then show ?thesis using ih st Halt Stop cg
            by (cases s2) (simp_all add: credits_Cons leave_Raise yields_def same_counts_def)
        next
          case (Loop g1 c2)
          with st show ?thesis by simp
        qed
      next
        case (Yield x)
        note it = on_item_credit [OF okg, where x = x and c = c']
        show ?thesis
        proof (cases "on_item g x c'")
          case (Out y g1 c2)
          with "3.prems"(2) None Some r Yield have "s = Yield y" "gs1 = g1 # gs'" "c1 = c2"
            by (simp_all add: pull.simps)
          then show ?thesis using ih it Out Yield
            by (simp add: credits_Cons yields_def same_counts_def)
        next
          case (Halt s2 g1 c2)
          from it Halt have h: "\<not> (\<exists>y. s2 = Yield y)" "\<not> gen_flat_map g1" "credit g1 = 0"
            "processed (stats c2) = processed (stats c')" "emitted (stats c2) = emitted (stats c')"
            by (simp_all add: same_counts_def)
          show ?thesis
          proof (cases s2)
            case Stop': Stop
            with "3.prems"(2) None Some r Yield Halt
            obtain gs3 c3 where cl: "close src k gs' c2 = Some (gs3, c3)"
              and res: "s = Stop" "gs1 = g1 # gs3" "c1 = c3"
              by (auto simp add: pull.simps split: option.splits)
            from "3.IH"(2) [OF None Some r [symmetric] Yield refl Halt Stop' ih(1) cl]
            have ih2: "list_all (\<lambda>g. \<not> gen_flat_map g) gs3"
              "emitted (stats c3) = emitted (stats c2)"
              "processed (stats c2) + credits gs3 \<le> processed (stats c3) + credits gs'"
              by simp_all
            show ?thesis using ih ih2 h res cg Yield
              by (simp add: credits_Cons yields_def)
          next
            case (Raise e)
            with "3.prems"(2) None Some r Yield Halt
            have "s = leave s2" "gs1 = g1 # gs'" "c1 = c2"
              by (simp_all add: pull.simps)
            then show ?thesis using ih h cg Yield Raise
              by (simp add: credits_Cons leave_Raise yields_def)
          next
            case (Yield y)
            with h show ?thesis by simp
          qed
        next
          case (Loop g1 c2)
          with "3.prems"(2) None Some r Yield
          have p: "pull src k (g1 # gs') c2 = Some (s, gs1, c1)" by (simp add: pull.simps)
          from it Loop have l: "\<not> gen_flat_map g1" "credit g1 \<le> credit g + 1"
            "processed (stats c2) = processed (stats c')" "emitted (stats c2) = emitted (stats c')"
            by (simp_all add: same_counts_def)
          have ok1: "list_all (\<lambda>g. \<not> gen_flat_map g) (g1 # gs')" using l(1) ih(1) by simp
          from "3.IH"(3) [OF None Some r [symmetric] Yield refl Loop ok1 p]
          have ih2: "list_all (\<lambda>g. \<not> gen_flat_map g) gs1"
            "emitted (stats c1) = emitted (stats c2)"
            "processed (stats c2) + credits gs1 + yields s \<le> processed (stats c1) + credits (g1 # gs')"
            by (simp_all add: same_counts_def)
          show ?thesis using ih ih2 l Yield
            by (simp add: credits_Cons yields_def same_counts_def)
        qed
      qed
    qed
  qed
next
  case (4 src fuel c)
  then show ?case by (simp add: credits_def)
next
  case (5 src fuel g gs c)
  from "5.prems"(1) have okg: "\<not> gen_flat_map g" and okgs: "list_all (\<lambda>g. \<not> gen_flat_map g) gs"
    by simp_all
  note cg = credit_nonneg [of g]
  note oc = on_close_credit [where g = g and c = c]
  show ?case
  proof (cases "on_close g c")
    case (Released c')
    with "5.prems"(2) obtain gs3 where cl: "close src fuel gs c' = Some (gs3, c2)"
      and res: "gs2 = Finished # gs3"
      by (auto simp add: close.simps(2) split: option.splits)
    from "5.IH"(1) [OF Released okgs cl] oc Released res cg show ?thesis
      by (simp add: credits_Cons same_counts_def)
  next
    case (Held c')
    with "5.prems"(2) have "gs2 = Finished # gs" "c2 = c'" by (simp_all add: close.simps(2))
    with oc Held okgs cg show ?thesis by (simp add: credits_Cons same_counts_def)
  next
    case (Again g1 c')
    with "5.prems"(2) obtain k where k: "fuel = Suc k"
      by (cases fuel) (simp_all add: close.simps(2))
    from "5.prems"(2) Again k obtain s' gs' c3 gs3 where
      p: "pull src k (g1 # gs) c' = Some (s', gs', c3)"
      and cl: "close src k (tl gs') c3 = Some (gs3, c2)"
      and res: "gs2 = Finished # gs3"
      by (auto simp add: close.simps(2) split: option.splits)
    from oc Again have a: "\<not> gen_flat_map g1" "credit g1 = 0"
      "processed (stats c') = processed (stats c)" "emitted (stats c') = emitted (stats c)"
      by (simp_all add: same_counts_def)
    have ok1: "list_all (\<lambda>g. \<not> gen_flat_map g) (g1 # gs)" using a(1) okgs by simp
    from "5.IH"(2) [OF Again k ok1 p]
    have ih: "list_all (\<lambda>g. \<not> gen_flat_map g) gs'"
      "emitted (stats c3) = emitted (stats c')"
      "processed (stats c') + credits gs' + yields s' \<le> processed (stats c3) + credits (g1 # gs)"
      by simp_all
    from "5.IH"(3) [OF Again k p refl refl list_all_tl [OF ih(1)] cl]
    have ih2: "list_all (\<lambda>g. \<not> gen_flat_map g) gs3"
      "emitted (stats c2) = emitted (stats c3)"
      "processed (stats c3) + credits gs3 \<le> processed (stats c2) + credits (tl gs')"
      by simp_all
    show ?thesis using ih ih2 a res cg credits_tl [of gs'] yields_nonneg [of s']
      by (simp add: credits_Cons)
  qed
qed

lemma drain_credit:
  "list_all (\<lambda>g. \<not> gen_flat_map g) gs \<Longrightarrow> drain src sink fuel gs c = Some (Inr st, w') \<Longrightarrow>
   emitted st + processed (stats c) \<le> emitted (stats c) + processed st + credits gs"
proof (induction src sink fuel gs c arbitrary: st w' rule: drain.induct)
  case (1 src sink gs c)
  then show ?case by (simp add: drain.simps)
next
  case (2 src sink k gs c)
  show ?case
  proof (cases "pull src (Suc k) gs c")
    case None
    with "2.prems"(2) show ?thesis by (simp add: drain.simps)
  next
    case (Some r)
    obtain s gs1 c1 where r: "r = (s, gs1, c1)" by (cases r)
    from pull_credit [OF "2.prems"(1) Some [unfolded r]]
    have pc: "list_all (\<lambda>g. \<not> gen_flat_map g) gs1" "emitted (stats c1) = emitted (stats c)"
      "processed (stats c) + credits gs1 + yields s \<le> processed (stats c1) + credits gs"
      by simp_all
    note cn = credits_nonneg [of gs1]
    show ?thesis
    proof (cases s)
      case Stop
      with "2.prems"(2) Some r have "st = stats c1" by (simp add: drain.simps)
      with pc cn Stop show ?thesis by (simp add: yields_def)
    next
      case (Raise e)
      with "2.prems"(2) Some r show ?thesis by (simp add: drain.simps)
    next
      case (Yield y)
      show ?thesis
      proof (cases sink)
        case None
        with "2.prems"(2) Some r Yield
        have d: "drain src sink k gs1 (add_emitted c1) = Some (Inr st, w')"
          by (simp add: drain.simps)
        from "2.IH"(1) [OF Some r [symmetric] Yield refl None pc(1) d] pc Yield
        show ?thesis by (simp add: yields_def ctx_defs)
      next
        case f: (Some f)
        obtain r2 c2 where cl: "call f y (add_emitted c1) = (r2, c2)"
          by (cases "call f y (add_emitted c1)")
        from call_stats [OF cl] have s2: "stats c2 = stats (add_emitted c1)" .
        show ?thesis
        proof (cases r2)
          case (Inl e)
          with "2.prems"(2) Some r Yield f cl show ?thesis by (simp add: drain.simps)
        next
          case (Inr v)
          with "2.prems"(2) Some r Yield f cl
          have d: "drain src sink k gs1 c2 = Some (Inr st, w')" by (simp add: drain.simps)
          from "2.IH"(2) [OF Some r [symmetric] Yield refl f cl [symmetric] Inr pc(1) d] pc Yield s2
          show ?thesis by (simp add: yields_def ctx_defs)
        qed
      qed
    qed
  qed
qed

lemma start_no_flat_map: "gen_flat_map (start op) = is_flat_map op"
  by (cases op) simp_all

lemma start_credit: "credit (start op) = 0"
  by (cases op) simp_all

lemma credits_start: "credits (rev (map start os)) = 0"
  by (induction os) (simp_all add: credits_def start_credit)

text \<open>
  Claim C1, as the code has it. For every pipeline with no \<^verbatim>\<open>flat_map\<close> in its chain,
  whatever its source, its other operators (\<^verbatim>\<open>batch\<close> included), their callables and
  the sink, every run that returns a statistics record gives \<open>emitted \<le> processed\<close>.
\<close>

theorem emitted_le_processed:
  assumes "\<forall>op \<in> set (ops p). \<not> is_flat_map op"
    and "run fuel p sink w = Some (Inr st, w')"
  shows "emitted st \<le> processed st"
proof -
  have ok: "list_all (\<lambda>g. \<not> gen_flat_map g) (rev (map start (ops p)))"
    using assms(1) by (simp add: list_all_iff start_no_flat_map)
  from drain_credit [OF ok assms(2) [unfolded run_def]]
  show ?thesis by (simp add: credits_start RunStats_def)
qed

text \<open>
  Claim C1 as stated fails with \<^verbatim>\<open>flat_map\<close>: over the one-item source \<^verbatim>\<open>[1]\<close>,
  \<^verbatim>\<open>flat_map(lambda x: [x, x])\<close> delivers two items, so \<open>emitted = 2 > processed = 1\<close>.
\<close>

theorem flat_map_emits_more:
  "run 5 \<lparr>source_of = of_list [IntV 1], ops = [Flat_map (pure_call (\<lambda>x. ListV [x, x]))]\<rparr>
     (Some result_append) [] =
   Some (Inr \<lparr>processed = 1, emitted = 2, dropped = 0, batches = 0, errors = 0\<rparr>, [IntV 1, IntV 1])"
  by code_simp

theorem emitted_le_processed_witness:
  "run 9 \<lparr>source_of = of_list [IntV 0, IntV 7, IntV 2, IntV 3, IntV 9],
           ops = [Filter_op (pure_call (\<lambda>x. IntV (if x = IntV 7 then 0 else 1))), Batch 3]\<rparr>
     (Some result_append) [] =
   Some (Inr \<lparr>processed = 5, emitted = 2, dropped = 1, batches = 2, errors = 0\<rparr>,
         [ListV [IntV 0, IntV 2, IntV 3], ListV [IntV 9]])
   \<and> emitted \<lparr>processed = 5, emitted = 2, dropped = 1, batches = 2, errors = 0\<rparr>
       \<le> processed \<lparr>processed = 5, emitted = 2, dropped = 1, batches = 2, errors = 0\<rparr>"
proof -
  let ?p = "\<lparr>source_of = of_list [IntV 0, IntV 7, IntV 2, IntV 3, IntV 9],
           ops = [Filter_op (pure_call (\<lambda>x. IntV (if x = IntV 7 then 0 else 1))), Batch 3]\<rparr>
           :: (item list) pipe"
  have h1: "\<forall>op \<in> set (ops ?p). \<not> is_flat_map op" by simp
  have h2: "run 9 ?p (Some result_append) [] =
   Some (Inr \<lparr>processed = 5, emitted = 2, dropped = 1, batches = 2, errors = 0\<rparr>,
         [ListV [IntV 0, IntV 2, IntV 3], ListV [IntV 9]])"
    by code_simp
  from emitted_le_processed [OF h1 h2] h2 show ?thesis by simp
qed

section \<open>Repeated runs\<close>

lemma call_stateless: "stateless fn \<Longrightarrow> call fn x c = (fst (fn x w0), c)"
proof -
  assume a: "stateless fn"
  then have "fst (fn x (world c)) = fst (fn x w0)" "snd (fn x (world c)) = world c"
    unfolding stateless_def by blast+
  then show ?thesis by (cases "fn x (world c)") (simp add: call_def)
qed

lemma call2_stateless: "stateless2 fn \<Longrightarrow> call2 fn x e c = (fst (fn x e w0), c)"
proof -
  assume a: "stateless2 fn"
  then have "fst (fn x e (world c)) = fst (fn x e w0)" "snd (fn x e (world c)) = world c"
    unfolding stateless2_def by blast+
  then show ?thesis by (cases "fn x e (world c)") (simp add: call2_def)
qed

lemma attempts_stateless:
  assumes "stateless fn"
  shows "attempts fn exceptions x n last_exc (c\<lparr>world := w\<rparr>) =
           (case attempts fn exceptions x n last_exc c of (r, lx, c1) \<Rightarrow> (r, lx, c1\<lparr>world := w\<rparr>))
         \<and> world (snd (snd (attempts fn exceptions x n last_exc c))) = world c"
proof (induction n arbitrary: last_exc c)
  case 0
  then show ?case by (simp split: option.splits)
next
  case (Suc n)
  note cs = call_stateless [OF assms, where ?w0.0 = w]
  show ?case
  proof (cases "fst (fn x w)")
    case (Inl e)
    have e: "add_errors (c\<lparr>world := w\<rparr>) = (add_errors c)\<lparr>world := w\<rparr>" by (simp add: ctx_defs)
    show ?thesis using Suc.IH [where last_exc = "Some e" and c = "add_errors c"]
      by (simp add: cs Inl e) (simp add: ctx_defs)
  next
    case (Inr y)
    then show ?thesis by (simp add: cs)
  qed
qed

lemma on_item_world:
  assumes "pure_gen g"
  shows "on_item g x (c\<lparr>world := w\<rparr>) = with_world w (on_item g x c)"
proof (cases g)
  case (G_retry_map fn retries backoff exceptions at_yield)
  with assms have st: "stateless fn" by simp
  obtain r lx c1 where a: "attempts fn exceptions x (nat (retries + 1)) None c = (r, lx, c1)"
    by (cases "attempts fn exceptions x (nat (retries + 1)) None c")
  from attempts_stateless [OF st, where exceptions = exceptions and x = x
      and n = "nat (retries + 1)" and last_exc = None and c = c and w = w] a
  show ?thesis by (cases r) (auto simp add: G_retry_map simp del: attempts.simps)
next
  case (G_dedupe key max_size seen)
  show ?thesis
  proof (cases key)
    case None
    then show ?thesis by (simp add: G_dedupe ctx_defs Let_def)
  next
    case (Some k)
    with assms G_dedupe have "stateless k" by simp
    note cs = call_stateless [OF this, where ?w0.0 = w]
    show ?thesis by (simp add: G_dedupe Some cs ctx_defs Let_def split: sum.splits)
  qed
next
  case (G_catch fn on_error exceptions at_yield)
  with assms have "stateless fn" "stateless2 on_error" by simp_all
  note cs = call_stateless [OF this(1), where ?w0.0 = w] call2_stateless [OF this(2), where ?w0.0 = w]
  show ?thesis by (simp add: G_catch cs ctx_defs split: sum.splits)
next
  case (G_map fn)
  with assms have "stateless fn" by simp
  note cs = call_stateless [OF this, where ?w0.0 = w]
  show ?thesis by (simp add: G_map cs split: sum.splits)
next
  case (G_flat_map fn rest)
  with assms have "stateless fn" by simp
  note cs = call_stateless [OF this, where ?w0.0 = w]
  show ?thesis by (simp add: G_flat_map cs split: sum.splits list.splits)
next
  case (G_filter fn)
  with assms have "stateless fn" by simp
  note cs = call_stateless [OF this, where ?w0.0 = w]
  show ?thesis by (simp add: G_filter cs ctx_defs split: sum.splits)
next
  case (G_tap fn)
  with assms have "stateless fn" by simp
  note cs = call_stateless [OF this, where ?w0.0 = w]
  show ?thesis by (simp add: G_tap cs split: sum.splits)
qed (simp_all add: ctx_defs Let_def)

lemma on_item_pure:
  assumes "pure_gen g"
  shows "case on_item g x c of
           Out y g1 c1 \<Rightarrow> pure_gen g1 \<and> world c1 = world c
         | Halt s g1 c1 \<Rightarrow> pure_gen g1 \<and> world c1 = world c
         | Loop g1 c1 \<Rightarrow> pure_gen g1 \<and> world c1 = world c"
proof (cases g)
  case (G_retry_map fn retries backoff exceptions at_yield)
  with assms have st: "stateless fn" by simp
  obtain r lx c1 where a: "attempts fn exceptions x (nat (retries + 1)) None c = (r, lx, c1)"
    by (cases "attempts fn exceptions x (nat (retries + 1)) None c")
  from attempts_stateless [OF st, where exceptions = exceptions and x = x
      and n = "nat (retries + 1)" and last_exc = None and c = c and w = "world c"] a st
  show ?thesis by (cases r) (auto simp add: G_retry_map simp del: attempts.simps)
next
  case (G_dedupe key max_size seen)
  show ?thesis
  proof (cases key)
    case None
    then show ?thesis by (simp add: G_dedupe ctx_defs Let_def)
  next
    case (Some k)
    with assms G_dedupe have "stateless k" by simp
    note cs = call_stateless [OF this, where ?w0.0 = "world c"]
    show ?thesis using assms by (simp add: G_dedupe Some cs ctx_defs Let_def split: sum.splits)
  qed
next
  case (G_catch fn on_error exceptions at_yield)
  with assms have "stateless fn" "stateless2 on_error" by simp_all
  note cs = call_stateless [OF this(1), where ?w0.0 = "world c"]
    call2_stateless [OF this(2), where ?w0.0 = "world c"]
  show ?thesis using assms by (simp add: G_catch cs ctx_defs split: sum.splits)
next
  case (G_map fn)
  with assms have "stateless fn" by simp
  note cs = call_stateless [OF this, where ?w0.0 = "world c"]
  show ?thesis using assms by (simp add: G_map cs split: sum.splits)
next
  case (G_flat_map fn rest)
  with assms have "stateless fn" by simp
  note cs = call_stateless [OF this, where ?w0.0 = "world c"]
  show ?thesis using assms by (simp add: G_flat_map cs split: sum.splits list.splits)
next
  case (G_filter fn)
  with assms have "stateless fn" by simp
  note cs = call_stateless [OF this, where ?w0.0 = "world c"]
  show ?thesis using assms by (simp add: G_filter cs ctx_defs split: sum.splits)
next
  case (G_tap fn)
  with assms have "stateless fn" by simp
  note cs = call_stateless [OF this, where ?w0.0 = "world c"]
  show ?thesis using assms by (simp add: G_tap cs split: sum.splits)
qed (simp_all add: ctx_defs Let_def)

lemma on_stop_world: "on_stop g (c\<lparr>world := w\<rparr>) = with_world w (on_stop g c)"
  by (cases g) (simp_all add: ctx_defs)

lemma on_stop_pure:
  "case on_stop g c of
     Out y g1 c1 \<Rightarrow> pure_gen g1 \<and> world c1 = world c
   | Halt s g1 c1 \<Rightarrow> pure_gen g1 \<and> world c1 = world c
   | Loop g1 c1 \<Rightarrow> pure_gen g1 \<and> world c1 = world c"
  by (cases g) (simp_all add: ctx_defs)

lemma on_close_world:
  assumes "pure_gen g"
  shows "case on_close g c of
           Released c1 \<Rightarrow> on_close g (c\<lparr>world := w\<rparr>) = Released (c1\<lparr>world := w\<rparr>) \<and> world c1 = world c
         | Held c1 \<Rightarrow> on_close g (c\<lparr>world := w\<rparr>) = Held (c1\<lparr>world := w\<rparr>) \<and> world c1 = world c
         | Again g1 c1 \<Rightarrow> on_close g (c\<lparr>world := w\<rparr>) = Again g1 (c1\<lparr>world := w\<rparr>)
             \<and> world c1 = world c \<and> pure_gen g1"
proof (cases g)
  case (G_retry_map fn retries backoff exceptions at_yield)
  with assms have st: "stateless fn" by simp
  show ?thesis
  proof (cases at_yield)
    case None
    then show ?thesis by (simp add: G_retry_map)
  next
    case (Some a)
    obtain x left lx where a: "a = (x, left, lx)" by (cases a)
    obtain r lx1 c1 where b:
      "attempts fn exceptions x left (Some GeneratorExit) (add_errors c) = (r, lx1, c1)"
      by (cases "attempts fn exceptions x left (Some GeneratorExit) (add_errors c)")
    have e: "add_errors (c\<lparr>world := w\<rparr>) = (add_errors c)\<lparr>world := w\<rparr>" by (simp add: ctx_defs)
    from attempts_stateless [OF st, where exceptions = exceptions and x = x
        and n = left and last_exc = "Some GeneratorExit" and c = "add_errors c" and w = w] b
    have "attempts fn exceptions x left (Some GeneratorExit) (add_errors (c\<lparr>world := w\<rparr>)) =
        (r, lx1, c1\<lparr>world := w\<rparr>)" "world c1 = world c"
      by (simp_all add: e) (simp add: ctx_defs)
    then show ?thesis
      by (simp add: G_retry_map Some a b del: attempts.simps)
  qed
next
  case (G_catch fn on_error exceptions at_yield)
  with assms have p: "stateless fn" "stateless2 on_error" by simp_all
  note cs = call2_stateless [OF p(2), where ?w0.0 = w]
  show ?thesis
  proof (cases at_yield)
    case None
    then show ?thesis by (simp add: G_catch)
  next
    case (Some x)
    show ?thesis using p by (simp add: G_catch Some cs ctx_defs split: sum.splits)
  qed
qed simp_all

lemma resume_pure: "pure_gen g \<Longrightarrow> resume g = Some (s, g1) \<Longrightarrow> pure_gen g1"
  by (cases g; cases "case g of G_flat_map fn rest \<Rightarrow> rest | _ \<Rightarrow> []") auto

lemma source_next_world:
  "source_next src (c\<lparr>world := w\<rparr>) =
     (case source_next src c of (s, c1) \<Rightarrow> (s, c1\<lparr>world := w\<rparr>))"
  by (simp add: source_next_def ctx_defs split: option.splits)

lemma pull_world:
  "list_all pure_gen gs \<Longrightarrow> pull src fuel gs c = Some (s, gs1, c1) \<Longrightarrow>
   list_all pure_gen gs1 \<and> world c1 = world c
   \<and> pull src fuel gs (c\<lparr>world := w\<rparr>) = Some (s, gs1, c1\<lparr>world := w\<rparr>)"
  and close_world:
  "list_all pure_gen gs \<Longrightarrow> close src fuel gs c = Some (gs2, c2) \<Longrightarrow>
   list_all pure_gen gs2 \<and> world c2 = world c
   \<and> close src fuel gs (c\<lparr>world := w\<rparr>) = Some (gs2, c2\<lparr>world := w\<rparr>)"
proof (induction src fuel gs c and src fuel gs c arbitrary: s gs1 c1 and gs2 c2 rule: pull_close.induct)
  case (1 src fuel c)
  then show ?case
    by (auto simp: pull.simps source_next_def ctx_defs split: option.splits)
next
  case (2 src g gs c)
  then show ?case by (simp add: pull.simps)
next
  case (3 src k g gs c)
  from "3.prems"(1) have pg: "pure_gen g" and pgs: "list_all pure_gen gs" by simp_all
  show ?case
  proof (cases "resume g")
    case (Some a)
    obtain s0 g0 where a: "a = (s0, g0)" by (cases a)
    from resume_pure [OF pg Some [unfolded a]] have "pure_gen g0" .
    with "3.prems"(2) Some a pgs show ?thesis by (auto simp: pull.simps)
  next
    case None
    show ?thesis
    proof (cases "pull src (Suc k) gs c")
      case None': None
      with "3.prems"(2) None show ?thesis by (simp add: pull.simps)
    next
      case (Some r)
      obtain s' gs' c' where r: "r = (s', gs', c')" by (cases r)
      from "3.IH"(1) [OF None pgs Some [unfolded r]]
      have ih: "list_all pure_gen gs'" "world c' = world c"
        "pull src (Suc k) gs (c\<lparr>world := w\<rparr>) = Some (s', gs', c'\<lparr>world := w\<rparr>)"
        by simp_all
      show ?thesis
      proof (cases s')
        case (Raise e)
        with "3.prems"(2) None Some r have "s = Raise e" "gs1 = Failed # gs'" "c1 = c'"
          by (simp_all add: pull.simps)
        then show ?thesis using ih Raise None by (simp add: pull.simps)
      next
        case Stop
        note st = on_stop_pure [where g = g and c = c'] on_stop_world [where g = g and c = c' and w = w]
        show ?thesis
        proof (cases "on_stop g c'")
          case (Out y g1 c2)
          with "3.prems"(2) None Some r Stop have "s = Yield y" "gs1 = g1 # gs'" "c1 = c2"
            by (simp_all add: pull.simps)
          then show ?thesis using ih st Out Stop None
            by (simp add: pull.simps del: on_stop.simps)
        next
          case (Halt s2 g1 c2)
          with "3.prems"(2) None Some r Stop have "s = leave s2" "gs1 = g1 # gs'" "c1 = c2"
            by (simp_all add: pull.simps)
          then show ?thesis using ih st Halt Stop None
            by (simp add: pull.simps del: on_stop.simps)
        next
          case (Loop g1 c2)
          with "3.prems"(2) None Some r Stop have "s = Stop" "gs1 = Finished # gs'" "c1 = c2"
            by (simp_all add: pull.simps)
          then show ?thesis using ih st Loop Stop None
            by (simp add: pull.simps del: on_stop.simps)
        qed
      next
        case (Yield x)
        note it = on_item_pure [OF pg, where x = x and c = c']
          on_item_world [OF pg, where x = x and c = c' and w = w]
        show ?thesis
        proof (cases "on_item g x c'")
          case (Out y g1 c2)
          with "3.prems"(2) None Some r Yield have "s = Yield y" "gs1 = g1 # gs'" "c1 = c2"
            by (simp_all add: pull.simps)
          then show ?thesis using ih it Out Yield None
            by (simp add: pull.simps del: on_item.simps)
        next
          case (Halt s2 g1 c2)
          from it Halt have h: "pure_gen g1" "world c2 = world c'"
            "on_item g x (c'\<lparr>world := w\<rparr>) = Halt s2 g1 (c2\<lparr>world := w\<rparr>)"
            by simp_all
          show ?thesis
          proof (cases "s2 = Stop")
            case True
            with "3.prems"(2) None Some r Yield Halt
            obtain gs3 c3 where cl: "close src k gs' c2 = Some (gs3, c3)"
              and res: "s = Stop" "gs1 = g1 # gs3" "c1 = c3"
              by (auto simp add: pull.simps split: option.splits)
            from "3.IH"(2) [OF None Some r [symmetric] Yield refl Halt True ih(1) cl]
            have ih2: "list_all pure_gen gs3" "world c3 = world c2"
              "close src k gs' (c2\<lparr>world := w\<rparr>) = Some (gs3, c3\<lparr>world := w\<rparr>)"
              by simp_all
            show ?thesis using ih ih2 h res Yield None True
              by (simp add: pull.simps del: on_item.simps)
          next
            case False
            then have ns: "(case s2 of Stop \<Rightarrow> X | _ \<Rightarrow> Y) = Y"
              for X Y :: "(signal \<times> 'a gen list \<times> 'a ctx) option"
              by (cases s2) simp_all
            from "3.prems"(2) None Some r Yield Halt
            have "Some (leave s2, g1 # gs', c2) = Some (s, gs1, c1)"
              by (simp add: pull.simps ns)
            then have "s = leave s2" "gs1 = g1 # gs'" "c1 = c2" by simp_all
            then show ?thesis using ih h Yield None False
              by (cases s2) (simp_all add: pull.simps del: on_item.simps)
          qed
        next
          case (Loop g1 c2)
          with "3.prems"(2) None Some r Yield
          have p: "pull src k (g1 # gs') c2 = Some (s, gs1, c1)" by (simp add: pull.simps)
          from it Loop have l: "pure_gen g1" "world c2 = world c'"
            "on_item g x (c'\<lparr>world := w\<rparr>) = Loop g1 (c2\<lparr>world := w\<rparr>)"
            by simp_all
          have ok1: "list_all pure_gen (g1 # gs')" using l(1) ih(1) by simp
          from "3.IH"(3) [OF None Some r [symmetric] Yield refl Loop ok1 p]
          have ih2: "list_all pure_gen gs1" "world c1 = world c2"
            "pull src k (g1 # gs') (c2\<lparr>world := w\<rparr>) = Some (s, gs1, c1\<lparr>world := w\<rparr>)"
            by simp_all
          show ?thesis using ih ih2 l Yield None
            by (simp add: pull.simps del: on_item.simps)
        qed
      qed
    qed
  qed
next
  case (4 src fuel c)
  then show ?case by simp
next
  case (5 src fuel g gs c)
  from "5.prems"(1) have pg: "pure_gen g" and pgs: "list_all pure_gen gs" by simp_all
  note oc = on_close_world [OF pg, where c = c and w = w]
  show ?case
  proof (cases "on_close g c")
    case (Released c')
    with "5.prems"(2) obtain gs3 where cl: "close src fuel gs c' = Some (gs3, c2)"
      and res: "gs2 = Finished # gs3"
      by (auto simp add: close.simps(2) split: option.splits)
    from "5.IH"(1) [OF Released pgs cl] oc Released res show ?thesis
      by (simp add: close.simps(2))
  next
    case (Held c')
    with "5.prems"(2) have "gs2 = Finished # gs" "c2 = c'" by (simp_all add: close.simps(2))
    with oc Held pgs show ?thesis by (simp add: close.simps(2))
  next
    case (Again g1 c')
    with "5.prems"(2) obtain k where k: "fuel = Suc k"
      by (cases fuel) (simp_all add: close.simps(2))
    from "5.prems"(2) Again k obtain s' gs' c3 gs3 where
      p: "pull src k (g1 # gs) c' = Some (s', gs', c3)"
      and cl: "close src k (tl gs') c3 = Some (gs3, c2)"
      and res: "gs2 = Finished # gs3"
      by (auto simp add: close.simps(2) split: option.splits)
    from oc Again have a: "on_close g (c\<lparr>world := w\<rparr>) = Again g1 (c'\<lparr>world := w\<rparr>)"
      "world c' = world c" "pure_gen g1"
      by simp_all
    have ok1: "list_all pure_gen (g1 # gs)" using a(3) pgs by simp
    from "5.IH"(2) [OF Again k ok1 p]
    have ih: "list_all pure_gen gs'" "world c3 = world c'"
      "pull src k (g1 # gs) (c'\<lparr>world := w\<rparr>) = Some (s', gs', c3\<lparr>world := w\<rparr>)"
      by simp_all
    have okt: "list_all pure_gen (tl gs')" using ih(1) by (cases gs') simp_all
    from "5.IH"(3) [OF Again k p refl refl okt cl]
    have ih2: "list_all pure_gen gs3" "world c2 = world c3"
      "close src k (tl gs') (c3\<lparr>world := w\<rparr>) = Some (gs3, c2\<lparr>world := w\<rparr>)"
      by simp_all
    show ?thesis using ih ih2 a res k
      by (simp add: close.simps(2))
  qed
qed

lemma pull_world_None:
  assumes "list_all pure_gen gs" and "pull src fuel gs c = None"
  shows "pull src fuel gs (c\<lparr>world := w\<rparr>) = None"
proof (cases "pull src fuel gs (c\<lparr>world := w\<rparr>)")
  case None
  then show ?thesis .
next
  case (Some r)
  obtain s gs1 c1 where r: "r = (s, gs1, c1)" by (cases r)
  from pull_world [OF assms(1) Some [unfolded r], of "world c"] assms(2)
  show ?thesis by simp
qed

lemma drain_world:
  "list_all pure_gen gs \<Longrightarrow>
   drain src (Some result_append) fuel gs (c\<lparr>world := w\<rparr>) =
     map_option (\<lambda>(r, out). (r, w @ out)) (drain src (Some result_append) fuel gs (c\<lparr>world := []\<rparr>))"
proof (induction fuel arbitrary: gs c w)
  case 0
  then show ?case by (simp add: drain.simps)
next
  case (Suc k)
  show ?case
  proof (cases "pull src (Suc k) gs c")
    case None
    from pull_world_None [OF Suc.prems None] show ?thesis by (simp add: drain.simps)
  next
    case (Some r)
    obtain s gs1 c1 where r: "r = (s, gs1, c1)" by (cases r)
    note pw = pull_world [OF Suc.prems Some [unfolded r]]
    have p1: "pull src (Suc k) gs (c\<lparr>world := w\<rparr>) = Some (s, gs1, c1\<lparr>world := w\<rparr>)"
      and p2: "pull src (Suc k) gs (c\<lparr>world := []\<rparr>) = Some (s, gs1, c1\<lparr>world := []\<rparr>)"
      and ok: "list_all pure_gen gs1"
      using pw by simp_all
    show ?thesis
    proof (cases s)
      case Stop
      then show ?thesis by (simp add: drain.simps p1 p2)
    next
      case (Raise e)
      then show ?thesis by (simp add: drain.simps p1 p2)
    next
      case (Yield y)
      let ?c2 = "add_emitted c1"
      have l: "drain src (Some result_append) (Suc k) gs (c\<lparr>world := w\<rparr>) =
          drain src (Some result_append) k gs1 (?c2\<lparr>world := w @ [y]\<rparr>)"
        by (simp add: drain.simps p1 Yield call_def result_append_def ctx_defs)
      have r: "drain src (Some result_append) (Suc k) gs (c\<lparr>world := []\<rparr>) =
          drain src (Some result_append) k gs1 (?c2\<lparr>world := [y]\<rparr>)"
        by (simp add: drain.simps p2 Yield call_def result_append_def ctx_defs)
      show ?thesis
        unfolding l r Suc.IH [OF ok, where c = ?c2 and w = "w @ [y]"]
          Suc.IH [OF ok, where c = ?c2 and w = "[y]"]
        by (simp add: option.map_comp comp_def case_prod_unfold)
    qed
  qed
qed

lemma start_pure: "pure_gen (start op) = pure_op op"
  by (cases op) simp_all

lemma stateless_pure_call: "stateless (pure_call f)"
  by (simp add: stateless_def pure_call_def)

text \<open>
  Claim C7. The source of a builder is a fixed sequence that every run iterates from its
  first position, so it is re-iterable. When every callable of the operators is pure and
  deterministic, a run does not depend on the program state it starts in: started with any
  contents \<open>w\<close> of the list \<^verbatim>\<open>result\<close>, it returns what the run started with the empty
  list returns, and appends the same items. So a second invocation, started in the state
  the first one left, returns the same statistics (or raises the same exception, or runs
  out of the same fuel) and delivers the same sequence to the sink. (\<^verbatim>\<open>duration\<close> is
  not part of the modelled record.)
\<close>

theorem run_deterministic:
  assumes "\<forall>op \<in> set (ops p). pure_op op"
  shows "run fuel p (Some result_append) w =
           map_option (\<lambda>(r, out). (r, w @ out)) (run fuel p (Some result_append) [])
       \<and> (\<forall>r1 w1. run fuel p (Some result_append) w = Some (r1, w1) \<longrightarrow>
            (\<exists>out. w1 = w @ out \<and> run fuel p (Some result_append) [] = Some (r1, out)
                  \<and> run fuel p (Some result_append) w1 = Some (r1, w1 @ out)))"
proof -
  have ok: "list_all pure_gen (rev (map start (ops p)))"
    using assms by (simp add: list_all_iff start_pure)
  have eq: "run fuel p (Some result_append) v =
      map_option (\<lambda>(r, out). (r, v @ out)) (run fuel p (Some result_append) [])" for v
    using drain_world [OF ok, where c = "\<lparr>stats = RunStats, pos = 0, world = []\<rparr>" and w = v]
    by (simp add: run_def)
  have "\<exists>out. w1 = w @ out \<and> run fuel p (Some result_append) [] = Some (r1, out)
                  \<and> run fuel p (Some result_append) w1 = Some (r1, w1 @ out)"
    if a: "run fuel p (Some result_append) w = Some (r1, w1)" for r1 w1
  proof -
    from a eq [of w] obtain out where o: "run fuel p (Some result_append) [] = Some (r1, out)"
      "w1 = w @ out" by (auto split: prod.splits)
    with eq [of w1] show ?thesis by simp
  qed
  with eq [of w] show ?thesis by blast
qed

theorem run_deterministic_witness:
  "run 5 \<lparr>source_of = of_list [IntV 1, IntV 2, IntV 3],
           ops = [Map_op (pure_call (\<lambda>x. case x of IntV n \<Rightarrow> IntV (n * 2) | _ \<Rightarrow> x))]\<rparr>
     (Some result_append) [] =
   Some (Inr \<lparr>processed = 3, emitted = 3, dropped = 0, batches = 0, errors = 0\<rparr>,
         [IntV 2, IntV 4, IntV 6])
   \<and> run 5 \<lparr>source_of = of_list [IntV 1, IntV 2, IntV 3],
           ops = [Map_op (pure_call (\<lambda>x. case x of IntV n \<Rightarrow> IntV (n * 2) | _ \<Rightarrow> x))]\<rparr>
     (Some result_append) [IntV 2, IntV 4, IntV 6] =
   Some (Inr \<lparr>processed = 3, emitted = 3, dropped = 0, batches = 0, errors = 0\<rparr>,
         [IntV 2, IntV 4, IntV 6, IntV 2, IntV 4, IntV 6])"
proof -
  let ?p = "\<lparr>source_of = of_list [IntV 1, IntV 2, IntV 3],
           ops = [Map_op (pure_call (\<lambda>x. case x of IntV n \<Rightarrow> IntV (n * 2) | _ \<Rightarrow> x))]\<rparr>
           :: (item list) pipe"
  have h: "\<forall>op \<in> set (ops ?p). pure_op op" by (simp add: stateless_pure_call)
  have first: "run 5 ?p (Some result_append) [] =
      Some (Inr \<lparr>processed = 3, emitted = 3, dropped = 0, batches = 0, errors = 0\<rparr>,
            [IntV 2, IntV 4, IntV 6])"
    by code_simp
  from run_deterministic [OF h, of 5 "[]"] first show ?thesis by auto
qed

end
